theory Spec2Isabelle
  imports Complex_Main "HOL-Library.Word" "HOL-Library.Sublist"
begin

unbundle bit_operations_syntax

section \<open>The sample ring (class SpscRing)\<close>

text \<open>
  \<^verbatim>\<open>size_t\<close> is a 64-bit unsigned integer: every counter and index of the ring is a
  \<open>64 word\<close>, so \<open>+\<close>, \<open>-\<close> and \<open>*\<close> wrap around as they do in the source.  The ring only
  copies the two numbers of a sample, it never computes with them, so the element type is
  a parameter; the constructor fills the storage with zeros, as
  \<^verbatim>\<open>std::vector<double>(n)\<close> does (the allocation is taken to succeed).  An index outside
  the storage vector is undefined behaviour in the source; the model returns \<open>None\<close> there.
  The fields \<^verbatim>\<open>_cap\<close>, \<^verbatim>\<open>_mask\<close>, \<^verbatim>\<open>_buf\<close>, \<^verbatim>\<open>_head\<close>, \<^verbatim>\<open>_tail\<close> keep their names
  (\<open>msk\<close> for \<^verbatim>\<open>_mask\<close>, which would hide the library's \<open>mask\<close>).

  Every operation of the ring is one step of the model: \<open>push\<close> and \<open>pop_all\<close> are
  functions from one ring state to the next, so producer and consumer interleave at the
  granularity of whole operations.  The memory orders of the atomic loads and stores have
  no counterpart here.
\<close>

type_synonym size_t = "64 word"

record 'a SpscRing =
  cap :: size_t
  msk :: size_t
  buf :: "'a list"
  head :: size_t
  tail :: size_t

text \<open>\<^verbatim>\<open>while (p < v) p <<= 1;\<close> may run forever (once \<open>p\<close> has been shifted to 0),
  so the loop is a partial function and not returning is the value \<open>None\<close>.\<close>

partial_function (option) next_pow2_loop :: "size_t \<Rightarrow> size_t \<Rightarrow> size_t option" where
  "next_pow2_loop p v = (if p < v then next_pow2_loop (push_bit 1 p) v else Some p)"

declare next_pow2_loop.simps [code]

definition next_pow2 :: "size_t \<Rightarrow> size_t option" where
  "next_pow2 v = next_pow2_loop 1 v"

definition SpscRing_new :: "size_t \<Rightarrow> ('a::zero) SpscRing option" where
  "SpscRing_new capacity =
     (case next_pow2 capacity of
        None \<Rightarrow> None
      | Some c \<Rightarrow>
          Some \<lparr>cap = c, msk = c - 1, buf = replicate (unat (c * 2)) 0, head = 0, tail = 0\<rparr>)"

definition push :: "'a \<Rightarrow> 'a \<Rightarrow> 'a SpscRing \<Rightarrow> 'a SpscRing option" where
  "push t v r =
     (let h = head r;
          n = h + 1;
          i0 = unat ((h AND msk r) * 2 + 0);
          i1 = unat ((h AND msk r) * 2 + 1)
      in if i0 < length (buf r) \<and> i1 < length (buf r) then
           let r1 = r\<lparr>buf := (buf r)[i0 := t, i1 := v], head := n\<rparr>;
               tcur = tail r1
           in Some (if n - tcur > cap r1 then r1\<lparr>tail := n - cap r1\<rparr> else r1)
         else None)"

function pop_loop ::
  "'a SpscRing \<Rightarrow> size_t \<Rightarrow> size_t \<Rightarrow> size_t \<Rightarrow> ('a \<times> 'a) list \<Rightarrow> ('a \<times> 'a) list option"
where
  "pop_loop r tcur count i out =
     (if i < count then
        (let idx = ((tcur + i) AND msk r) * 2
         in if unat (idx + 0) < length (buf r) \<and> unat (idx + 1) < length (buf r)
            then pop_loop r tcur count (i + 1)
                   (out @ [(buf r ! unat (idx + 0), buf r ! unat (idx + 1))])
            else None)
      else Some out)"
  by pat_completeness auto
termination
proof (relation "measure (\<lambda>(r, tcur, count, i, out). unat count - unat i)")
  show "wf (measure (\<lambda>(r :: 'a SpscRing, tcur :: size_t, count :: size_t, i :: size_t,
                        out :: ('a \<times> 'a) list). unat count - unat i))"
    by simp
next
  fix r :: "'a SpscRing" and tcur count i :: size_t and out :: "('a \<times> 'a) list" and idx :: size_t
  assume lt: "i < count"
  then have "unat i < unat count"
    by (simp add: word_less_nat_alt)
  moreover have "unat (i + 1) = unat i + 1"
    using lt
    by (metis (no_types, lifting) add.commute add_cancel_left_right inc_i
        inc_le unat_plus_simple unsigned_0 unsigned_1 word_gt_0)
  ultimately show "((r, tcur, count, i + 1,
                     out @ [(buf r ! unat (idx + 0), buf r ! unat (idx + 1))]),
                    (r, tcur, count, i, out))
                   \<in> measure (\<lambda>(r, tcur, count, i, out). unat count - unat i)"
    by simp
qed

declare pop_loop.simps [simp del]

definition pop_all :: "'a SpscRing \<Rightarrow> (('a \<times> 'a) list \<times> 'a SpscRing) option" where
  "pop_all r =
     (let tcur = tail r;
          h = head r;
          count = h - tcur
      in case pop_loop r tcur count 0 [] of
           None \<Rightarrow> None
         | Some out \<Rightarrow> Some (out, r\<lparr>tail := h\<rparr>))"

subsection \<open>Sequences of ring operations\<close>

text \<open>
  A history of the ring: the producer's pushes and the consumer's \<open>pop_all\<close> calls in the
  order in which they take effect.  \<open>run\<close> returns what each \<open>pop_all\<close> returned, in call
  order, and the final ring; \<open>pushed\<close> is the push order of the history.
\<close>

datatype 'a ring_op = Push 'a 'a | PopAll

fun run :: "'a ring_op list \<Rightarrow> 'a SpscRing \<Rightarrow> (('a \<times> 'a) list list \<times> 'a SpscRing) option" where
  "run [] r = Some ([], r)"
| "run (Push t v # ops) r =
     (case push t v r of None \<Rightarrow> None | Some r' \<Rightarrow> run ops r')"
| "run (PopAll # ops) r =
     (case pop_all r of
        None \<Rightarrow> None
      | Some (out, r') \<Rightarrow>
          (case run ops r' of None \<Rightarrow> None | Some (outs, r'') \<Rightarrow> Some (out # outs, r'')))"

fun pushed :: "'a ring_op list \<Rightarrow> ('a \<times> 'a) list" where
  "pushed [] = []"
| "pushed (Push t v # ops) = (t, v) # pushed ops"
| "pushed (PopAll # ops) = pushed ops"

text \<open>\<open>timely C n ops\<close>: with \<open>n\<close> pushes made since the last \<open>pop_all\<close>, the history \<open>ops\<close>
  never lets more than \<open>C\<close> pushes pass without a \<open>pop_all\<close>.\<close>

fun timely :: "nat \<Rightarrow> nat \<Rightarrow> 'a ring_op list \<Rightarrow> bool" where
  "timely C n [] = True"
| "timely C n (Push t v # ops) = (Suc n \<le> C \<and> timely C (Suc n) ops)"
| "timely C n (PopAll # ops) = timely C 0 ops"

section \<open>The stream controller (class NativeShimmer)\<close>

text \<open>
  The fields \<^verbatim>\<open>_port\<close>, \<^verbatim>\<open>_running\<close>, \<^verbatim>\<open>_connected\<close>, \<^verbatim>\<open>_thread\<close>, \<^verbatim>\<open>_queue\<close> and
  \<^verbatim>\<open>_rng\<close> (\<open>connected'\<close> for \<^verbatim>\<open>_connected\<close>, which would hide the topological
  \<open>connected\<close>).  Both lifecycle methods throw \<^verbatim>\<open>std::runtime_error\<close>, told apart by
  their message.  Move-assigning to a joinable \<^verbatim>\<open>std::thread\<close> calls
  \<^verbatim>\<open>std::terminate\<close>; that and the undefined behaviour of the ring end the process.
  A method that throws has already changed the object, so every method returns its
  result together with the new state.  The diagnostic lines written to \<^verbatim>\<open>std::cout\<close> are
  not part of the state and are left out.  The source repeats the last three member
  declarations after the closing brace of the class; the class is taken as it is
  declared the first time.

  A \<^verbatim>\<open>double\<close> is modelled by a real number and a clock reading by its number of
  seconds: the model compares, adds and copies these numbers and takes sines of them,
  and no rounding is modelled.
\<close>

datatype error = RuntimeError string | Terminate | UndefinedBehaviour

text \<open>The local variables of \<^verbatim>\<open>run_loop\<close> that live from one iteration to the next.\<close>

record loop_vars =
  phase :: real
  t_next :: real

text \<open>
  The \<^verbatim>\<open>std::thread\<close> member: not joinable (\<open>NoThread\<close>: default-constructed or joined),
  or a thread that has been created and has not yet run (\<open>Started\<close>), is inside the
  \<^verbatim>\<open>while\<close> loop of \<^verbatim>\<open>run_loop\<close>, or has left it and is waiting to be joined (\<open>Exited\<close>).
\<close>

datatype thread_state = NoThread | Started | Looping loop_vars | Exited

definition joinable :: "thread_state \<Rightarrow> bool" where
  "joinable th \<longleftrightarrow> th \<noteq> NoThread"

record NativeShimmer =
  port :: string
  running :: bool
  connected' :: bool
  thread :: thread_state
  queue :: "real SpscRing"
  rng :: "32 word"

definition NativeShimmer_new :: "NativeShimmer option" where
  "NativeShimmer_new =
     (case SpscRing_new 4096 of
        None \<Rightarrow> None
      | Some q \<Rightarrow>
          Some \<lparr>port = [], running = False, connected' = False, thread = NoThread,
                queue = q, rng = 0x12345678\<rparr>)"

definition connect :: "string \<Rightarrow> NativeShimmer \<Rightarrow> (error + unit) \<times> NativeShimmer" where
  "connect p s =
     (let s = s\<lparr>port := p\<rparr>;
          s = s\<lparr>connected' := (p \<noteq> ''FAIL'')\<rparr>
      in if \<not> connected' s
         then (Inl (RuntimeError (''Failed to connect to Shimmer device at port: '' @ p)), s)
         else (Inr (), s))"

definition start_streaming :: "NativeShimmer \<Rightarrow> (error + unit) \<times> NativeShimmer" where
  "start_streaming s =
     (if \<not> connected' s
      then (Inl (RuntimeError ''Shimmer not connected. Call connect() first.''), s)
      else if running s then (Inr (), s)
      else let s = s\<lparr>running := True\<rparr>
           in if joinable (thread s) then (Inl Terminate, s)
              else (Inr (), s\<lparr>thread := Started\<rparr>))"

text \<open>\<^verbatim>\<open>join\<close> returns once the thread has seen \<^verbatim>\<open>_running\<close> false at the head of its
  loop, which is the next thing it reads; afterwards the member is not joinable.\<close>

definition stop_streaming :: "NativeShimmer \<Rightarrow> (error + unit) \<times> NativeShimmer" where
  "stop_streaming s =
     (let s = s\<lparr>running := False\<rparr>
      in if joinable (thread s) then (Inr (), s\<lparr>thread := NoThread\<rparr>) else (Inr (), s))"

definition get_latest_samples ::
  "NativeShimmer \<Rightarrow> (error + (real \<times> real) list) \<times> NativeShimmer" where
  "get_latest_samples s =
     (case pop_all (queue s) of
        None \<Rightarrow> (Inl UndefinedBehaviour, s)
      | Some (out, q) \<Rightarrow> (Inr out, s\<lparr>queue := q\<rparr>))"

definition is_connected :: "NativeShimmer \<Rightarrow> bool" where
  "is_connected s = connected' s"

definition get_device_info :: "NativeShimmer \<Rightarrow> string" where
  "get_device_info s =
     (if \<not> connected' s then ''Not connected''
      else ''Shimmer3 GSR+ (Simulated) - Port: '' @ port s @ '' - Sample Rate: 128 Hz'')"

subsection \<open>The sampling loop\<close>

definition rate :: real where
  "rate = 128.0"

definition dt :: real where
  "dt = 1.0 / rate"

definition two_pi :: real where
  "two_pi = 6.283185307179586"

text \<open>One pass through the body of \<^verbatim>\<open>while (_running.load())\<close>, \<open>now\<close> being what
  \<^verbatim>\<open>Clock::now()\<close> returns in it.  \<^verbatim>\<open>_rng >> 16\<close> is below \<open>2 ^ 16\<close>, so the cast to
  \<^verbatim>\<open>int\<close> keeps its value.\<close>

definition loop_body ::
  "real \<Rightarrow> NativeShimmer \<Rightarrow> loop_vars \<Rightarrow> (NativeShimmer \<times> loop_vars) option" where
  "loop_body now s lv =
     (if now < t_next lv then Some (s, lv)
      else
        let t = now;
            baseline_gsr = 8.0 + 2.0 * sin (phase lv * 0.1);
            respiratory_component = 1.5 * sin (phase lv * 0.5);
            cardiac_component = 0.5 * sin (phase lv * 2.0);
            g = 1664525 * rng s + 1013904223;
            noise = (real (unat (drop_bit 16 g)) / 32768.0 - 1.0) * 0.2;
            gsr_value = baseline_gsr + respiratory_component + cardiac_component + noise;
            gsr_value = max 0.1 gsr_value
        in case push t gsr_value (queue s) of
             None \<Rightarrow> None
           | Some q \<Rightarrow>
               let ph = phase lv + two_pi * dt;
                   ph = (if ph > two_pi then ph - two_pi else ph)
               in Some (s\<lparr>queue := q, rng := g\<rparr>, \<lparr>phase = ph, t_next = t_next lv + dt\<rparr>))"

text \<open>One scheduling of the loop thread: it enters \<^verbatim>\<open>run_loop\<close> and reads the clock for
  \<^verbatim>\<open>t_next\<close>, or tests \<^verbatim>\<open>_running\<close> and runs the body once, or leaves the loop.\<close>

definition thread_step :: "real \<Rightarrow> NativeShimmer \<Rightarrow> NativeShimmer option" where
  "thread_step now s =
     (case thread s of
        NoThread \<Rightarrow> Some s
      | Started \<Rightarrow> Some (s\<lparr>thread := Looping \<lparr>phase = 0.0, t_next = now\<rparr>\<rparr>)
      | Looping lv \<Rightarrow>
          if running s then
            (case loop_body now s lv of
               None \<Rightarrow> None
             | Some (s', lv') \<Rightarrow> Some (s'\<lparr>thread := Looping lv'\<rparr>))
          else Some (s\<lparr>thread := Exited\<rparr>)
      | Exited \<Rightarrow> Some s)"

subsection \<open>Histories of a stream\<close>

text \<open>
  What happens to one \<^verbatim>\<open>NativeShimmer\<close> object: the caller's method calls and the
  schedulings of its loop thread, in the order in which they take effect.  A caught
  \<^verbatim>\<open>std::runtime_error\<close> is a reply like any other; \<^verbatim>\<open>std::terminate\<close> and undefined
  behaviour end the history (\<open>None\<close>).
\<close>

datatype call =
  Connect string | StartStreaming | StopStreaming | GetLatestSamples | ThreadStep real

datatype reply = Returned | Raised string | Samples "(real \<times> real) list"

fun call_step :: "call \<Rightarrow> NativeShimmer \<Rightarrow> ((error + reply) \<times> NativeShimmer)" where
  "call_step (Connect p) s = (case connect p s of (res, s') \<Rightarrow> (map_sum id (\<lambda>_. Returned) res, s'))"
| "call_step StartStreaming s =
     (case start_streaming s of (res, s') \<Rightarrow> (map_sum id (\<lambda>_. Returned) res, s'))"
| "call_step StopStreaming s =
     (case stop_streaming s of (res, s') \<Rightarrow> (map_sum id (\<lambda>_. Returned) res, s'))"
| "call_step GetLatestSamples s =
     (case get_latest_samples s of (res, s') \<Rightarrow> (map_sum id Samples res, s'))"
| "call_step (ThreadStep now) s =
     (case thread_step now s of None \<Rightarrow> (Inl UndefinedBehaviour, s) | Some s' \<Rightarrow> (Inr Returned, s'))"

fun exec :: "call list \<Rightarrow> NativeShimmer \<Rightarrow> (reply list \<times> NativeShimmer) option" where
  "exec [] s = Some ([], s)"
| "exec (c # cs) s =
     (case call_step c s of
        (Inl (RuntimeError m), s') \<Rightarrow>
          (case exec cs s' of None \<Rightarrow> None | Some (rs, s'') \<Rightarrow> Some (Raised m # rs, s''))
      | (Inl Terminate, s') \<Rightarrow> None
      | (Inl UndefinedBehaviour, s') \<Rightarrow> None
      | (Inr r, s') \<Rightarrow>
          (case exec cs s' of None \<Rightarrow> None | Some (rs, s'') \<Rightarrow> Some (r # rs, s'')))"

fun samples_of :: "reply list \<Rightarrow> (real \<times> real) list" where
  "samples_of [] = []"
| "samples_of (Samples xs # rs) = xs @ samples_of rs"
| "samples_of (r # rs) = samples_of rs"

text \<open>The three states of the lifecycle, read off the two flags: a stream that is not
  connected is \<open>Disconnected\<close>, whatever its loop does.\<close>

datatype lifecycle = Disconnected | Connected | Running

definition lifecycle_of :: "NativeShimmer \<Rightarrow> lifecycle" where
  "lifecycle_of s =
     (if \<not> is_connected s then Disconnected else if running s then Running else Connected)"

section \<open>The frame loop (class NativeWebcam)\<close>

text \<open>
  \<^verbatim>\<open>cv::Mat\<close>, \<^verbatim>\<open>cv::resize\<close> and \<^verbatim>\<open>cv::cvtColor\<close> belong to OpenCV: a matrix is its
  size, channel count and bytes, and the two conversions are parameters of the model.
  \<open>capture_cycle\<close> is one pass through the body of the \<^verbatim>\<open>while\<close> loop of the OpenCV
  branch of \<^verbatim>\<open>run_loop\<close>, given what \<^verbatim>\<open>cap.read(frame)\<close> produced.  The synthetic
  gradient that \<^verbatim>\<open>run_loop\<close> draws when it is built without OpenCV, or when the camera
  cannot be opened, acquires nothing and is not modelled.
  \<^verbatim>\<open>get_latest_frame\<close> returns an array that refers to the buffer; the model returns
  its shape, its strides and the bytes it shows at the time of the call.
\<close>

record Mat =
  cols :: int
  rows :: int
  channels :: int
  data :: "8 word list"

definition mat_empty :: "Mat \<Rightarrow> bool" where
  "mat_empty m \<longleftrightarrow> data m = [] \<or> cols m * rows m = 0"

datatype acquired = ReadFailed | ReadOk Mat

record NativeWebcam =
  device_id :: int
  running_w :: bool
  thread_w :: bool
  width :: int
  height :: int
  buffer :: "8 word list"

definition NativeWebcam_new :: "int \<Rightarrow> NativeWebcam" where
  "NativeWebcam_new d =
     \<lparr>device_id = d, running_w = False, thread_w = False, width = 640, height = 480,
      buffer = replicate (nat (640 * 480 * 3)) 0\<rparr>"

definition get_latest_frame :: "NativeWebcam \<Rightarrow> int list \<times> int list \<times> 8 word list" where
  "get_latest_frame w = ([height w, width w, 3], [width w * 3, 3, 1], buffer w)"

text \<open>\<^verbatim>\<open>memcpy(dst, src, n)\<close>: undefined when either block is shorter than \<open>n\<close>.\<close>

definition memcpy :: "8 word list \<Rightarrow> 8 word list \<Rightarrow> nat \<Rightarrow> 8 word list option" where
  "memcpy dst src n =
     (if n \<le> length dst \<and> n \<le> length src then Some (take n src @ drop n dst) else None)"

definition capture_cycle ::
  "(Mat \<Rightarrow> int \<Rightarrow> int \<Rightarrow> Mat) \<Rightarrow> (Mat \<Rightarrow> Mat) \<Rightarrow> acquired \<Rightarrow> NativeWebcam \<Rightarrow> NativeWebcam option"
where
  "capture_cycle resize cvtColor a w =
     (case a of
        ReadOk frame \<Rightarrow>
          if mat_empty frame then Some w
          else
            let frame = (if cols frame \<noteq> width w \<or> rows frame \<noteq> height w
                         then resize frame (width w) (height w) else frame)
            in if channels frame = 3 then
                 (case memcpy (buffer w) (data frame) (length (buffer w)) of
                    None \<Rightarrow> None
                  | Some b \<Rightarrow> Some (w\<lparr>buffer := b\<rparr>))
               else
                 (let bgr = cvtColor frame
                  in case memcpy (buffer w) (data bgr) (length (buffer w)) of
                       None \<Rightarrow> None
                     | Some b \<Rightarrow> Some (w\<lparr>buffer := b\<rparr>))
      | ReadFailed \<Rightarrow> Some w)"

text \<open>The loop over the acquisitions made while \<^verbatim>\<open>_running\<close> stays true.\<close>

fun capture_loop ::
  "(Mat \<Rightarrow> int \<Rightarrow> int \<Rightarrow> Mat) \<Rightarrow> (Mat \<Rightarrow> Mat) \<Rightarrow> acquired list \<Rightarrow> NativeWebcam \<Rightarrow> NativeWebcam option"
where
  "capture_loop resize cvtColor [] w = Some w"
| "capture_loop resize cvtColor (a # as) w =
     (case capture_cycle resize cvtColor a w of
        None \<Rightarrow> None
      | Some w' \<Rightarrow> capture_loop resize cvtColor as w')"

section \<open>The ring as a list of unread samples\<close>

text \<open>
  The invariant of a ring that the constructor built and the list of samples between
  \<open>tail\<close> and \<open>head\<close>, oldest first; \<open>keep_last n\<close> keeps the last \<open>n\<close> elements of a list.
\<close>

definition ring_ok :: "'a SpscRing \<Rightarrow> bool" where
  "ring_ok r \<longleftrightarrow>
     (\<exists>j\<le>62. cap r = 2 ^ j) \<and> msk r = cap r - 1 \<and>
     length (buf r) = 2 * unat (cap r) \<and> head r - tail r \<le> cap r"

definition slot :: "'a SpscRing \<Rightarrow> size_t \<Rightarrow> 'a \<times> 'a" where
  "slot r k = (buf r ! (2 * unat (k AND msk r)), buf r ! (2 * unat (k AND msk r) + 1))"

definition unread :: "'a SpscRing \<Rightarrow> ('a \<times> 'a) list" where
  "unread r = map (\<lambda>i. slot r (tail r + of_nat i)) [0..<unat (head r - tail r)]"

definition keep_last :: "nat \<Rightarrow> 'a list \<Rightarrow> 'a list" where
  "keep_last n xs = drop (length xs - n) xs"

definition shimmer_ok :: "NativeShimmer \<Rightarrow> bool" where
  "shimmer_ok s \<longleftrightarrow>
     ring_ok (queue s) \<and> (running s \<longleftrightarrow> joinable (thread s)) \<and>
     (\<forall>x \<in> set (unread (queue s)). 0.1 \<le> snd x)"

section \<open>Index arithmetic of the ring\<close>

lemma pow62: "j \<le> 62 \<Longrightarrow> (2::nat) ^ j \<le> 2 ^ 62"
  by (rule power_increasing) simp_all

lemma unat_cap:
  assumes "j \<le> 62" shows "unat ((2::size_t) ^ j) = 2 ^ j"
proof -
  have "(0::size_t) < 2 ^ j"
    using assms by (simp add: word_gt_0)
  then have "uint ((2::size_t) ^ j) = 2 ^ j"
    by (rule uint_2p)
  then show ?thesis
    by (simp add: unat_eq_nat_uint)
qed

lemma unat_take_bit_add:
  assumes j: "j \<le> 62"
  shows "unat (take_bit j ((w :: size_t) + of_nat x)) = (unat w + x) mod 2 ^ j"
proof -
  have dvd: "(2::nat) ^ j dvd 2 ^ 64"
    using j by (intro le_imp_power_dvd) simp
  have "unat (take_bit j (w + of_nat x)) = take_bit j (unat (w + of_nat x))"
    by (rule unsigned_take_bit_eq)
  also have "\<dots> = unat (w + of_nat x) mod 2 ^ j"
    by (rule take_bit_eq_mod)
  also have "\<dots> = ((unat w + x mod 2 ^ 64) mod 2 ^ 64) mod 2 ^ j"
    by (simp add: unat_word_ariths unat_of_nat)
  also have "\<dots> = ((unat w + x) mod 2 ^ 64) mod 2 ^ j"
    by (simp only: mod_add_right_eq)
  also have "\<dots> = (unat w + x) mod 2 ^ j"
    using dvd by (rule mod_mod_cancel)
  finally show ?thesis .
qed

lemma slot_inj_le:
  assumes j: "j \<le> 62" and b: "b < 2 ^ j" and le: "a \<le> b"
    and eq: "take_bit j ((w :: size_t) + of_nat a) = take_bit j (w + of_nat b)"
  shows "a = b"
proof -
  note m = unat_take_bit_add [OF j, of w]
  have "(unat w + a) mod 2 ^ j = (unat w + b) mod 2 ^ j"
    using eq m [of a] m [of b] by simp
  then have "(unat w + b) mod 2 ^ j = (unat w + a) mod 2 ^ j"
    by simp
  moreover have "unat w + a \<le> unat w + b"
    using le by simp
  ultimately have "2 ^ j dvd (unat w + b) - (unat w + a)"
    by (simp only: mod_eq_dvd_iff_nat)
  then have "2 ^ j dvd b - a" by simp
  moreover have "b - a < 2 ^ j" using b by simp
  ultimately have "b - a = 0"
    by (meson dvd_imp_le not_less zero_less_iff_neq_zero)
  then show ?thesis using le by simp
qed

lemma and_cap_mask: "(w :: size_t) AND (2 ^ j - 1) = take_bit j w"
  by (simp add: take_bit_eq_mask mask_eq_exp_minus_1)

lemma unat_and_lt: "unat ((w :: size_t) AND (2 ^ j - 1)) < 2 ^ j"
  by (simp add: and_cap_mask unsigned_take_bit_eq)

lemma unat_idx0:
  assumes "j \<le> 62"
  shows "unat (((w :: size_t) AND (2 ^ j - 1)) * 2) = 2 * unat (w AND (2 ^ j - 1))"
proof -
  have "unat (w AND (2 ^ j - 1)) < 2 ^ 62"
    using unat_and_lt [of w j] pow62 [OF assms] by linarith
  then show ?thesis
    by (simp add: unat_word_ariths)
qed

lemma unat_idx1:
  assumes "j \<le> 62"
  shows "unat (((w :: size_t) AND (2 ^ j - 1)) * 2 + 1) = 2 * unat (w AND (2 ^ j - 1)) + 1"
proof -
  have "unat (w AND (2 ^ j - 1)) < 2 ^ 62"
    using unat_and_lt [of w j] pow62 [OF assms] by linarith
  then show ?thesis
    by (simp add: unat_word_ariths)
qed

lemma slot_inj:
  assumes j: "j \<le> 62" and a: "a < 2 ^ j" and b: "b < 2 ^ j"
    and eq: "((w :: size_t) + of_nat a) AND (2 ^ j - 1) = (w + of_nat b) AND (2 ^ j - 1)"
  shows "a = b"
proof -
  have e: "take_bit j (w + of_nat a) = take_bit j (w + of_nat b)"
    using eq by (simp add: and_cap_mask)
  show ?thesis
  proof (cases "a \<le> b")
    case True
    then show ?thesis using slot_inj_le [OF j b True e] by simp
  next
    case False
    then have "b \<le> a" by simp
    then show ?thesis using slot_inj_le [OF j a _ e [symmetric]] by simp
  qed
qed

text \<open>What the ring indexes: in range for every counter value.\<close>

lemma ring_ok_index:
  assumes "ring_ok r"
  shows "unat ((k AND msk r) * 2) = 2 * unat (k AND msk r)"
    and "unat ((k AND msk r) * 2 + 1) = 2 * unat (k AND msk r) + 1"
    and "Suc (2 * unat (k AND msk r)) < length (buf r)"
    and "2 * unat (k AND msk r) < length (buf r)"
proof -
  from assms obtain j where j: "j \<le> 62" "cap r = 2 ^ j" "msk r = 2 ^ j - 1"
    and len: "length (buf r) = 2 * unat (cap r)"
    by (auto simp: ring_ok_def)
  show "unat ((k AND msk r) * 2) = 2 * unat (k AND msk r)"
    using unat_idx0 [OF j(1)] j(3) by simp
  show "unat ((k AND msk r) * 2 + 1) = 2 * unat (k AND msk r) + 1"
    using unat_idx1 [OF j(1)] j(3) by simp
  show "Suc (2 * unat (k AND msk r)) < length (buf r)"
    using unat_and_lt [of k j] j len unat_cap [OF j(1)] by simp
  then show "2 * unat (k AND msk r) < length (buf r)"
    by simp
qed

lemma unat_inc: "i < (count :: size_t) \<Longrightarrow> unat (i + 1) = Suc (unat i)"
  by (metis (no_types, lifting) Suc_eq_plus1 add.commute add_cancel_left_right inc_i
      inc_le unat_plus_simple unsigned_0 unsigned_1 word_gt_0)

lemma pop_loop_eq:
  "ring_ok r \<Longrightarrow> i \<le> count \<Longrightarrow>
    pop_loop r tcur count i out =
      Some (out @ map (\<lambda>k. slot r (tcur + of_nat k)) [unat i..<unat count])"
proof (induction r tcur count i out rule: pop_loop.induct)
  case (1 r tcur count i out)
  note ok = ring_ok_index [OF "1.prems"(1)]
  show ?case
  proof (cases "i < count")
    case True
    have u: "unat (i + 1) = Suc (unat i)"
      using True by (rule unat_inc)
    have lt: "unat i < unat count"
      using True by (simp add: word_less_nat_alt)
    have le: "i + 1 \<le> count"
      using True by (rule inc_le)
    have split: "[unat i..<unat count] = unat i # [Suc (unat i)..<unat count]"
      using lt by (rule upt_conv_Cons)
    have "pop_loop r tcur count i out =
            pop_loop r tcur count (i + 1) (out @ [slot r (tcur + i)])"
      using True
      by (subst pop_loop.simps) (simp add: slot_def Let_def ok)
    also have "\<dots> = Some ((out @ [slot r (tcur + i)]) @
                 map (\<lambda>k. slot r (tcur + of_nat k)) [unat (i + 1)..<unat count])"
      using "1.IH" [OF True refl _ "1.prems"(1) le] by (simp add: ok slot_def)
    finally show ?thesis
      by (simp add: split u)
  next
    case False
    with "1.prems"(2) have "i = count" by simp
    then show ?thesis
      by (subst pop_loop.simps) simp
  qed
qed

lemma pop_all_eq:
  assumes "ring_ok r"
  shows "pop_all r = Some (unread r, r\<lparr>tail := head r\<rparr>)"
  using pop_loop_eq [OF assms, of 0 "head r - tail r" "tail r" "[]"]
  by (simp add: pop_all_def unread_def Let_def)

lemma pop_all_ok:
  assumes "ring_ok r"
  shows "ring_ok (r\<lparr>tail := head r\<rparr>)" and "unread (r\<lparr>tail := head r\<rparr>) = []"
  using assms by (simp_all add: ring_ok_def unread_def)

section \<open>What push and pop_all do to the unread samples\<close>

lemma unat_succ_small:
  assumes "unat (x :: size_t) \<le> 2 ^ 62"
  shows "unat (x + 1) = Suc (unat x)"
proof -
  have "unat x + 1 < 2 ^ 64"
    using assms by simp
  then show ?thesis
    by (simp add: unat_word_ariths)
qed

lemma ring_ok_span:
  assumes "ring_ok r"
  shows "unat (head r - tail r) \<le> unat (cap r)" and "unat (cap r) \<le> 2 ^ 62"
    and "0 < unat (cap r)"
proof -
  from assms obtain j where j: "j \<le> 62" "cap r = 2 ^ j"
    by (auto simp: ring_ok_def)
  show "unat (head r - tail r) \<le> unat (cap r)"
    using assms by (simp add: ring_ok_def word_le_nat_alt)
  show "unat (cap r) \<le> 2 ^ 62"
    using j unat_cap [OF j(1)] pow62 [OF j(1)] by simp
  show "0 < unat (cap r)"
    using j unat_cap [OF j(1)] by simp
qed

lemma push_eq:
  assumes ok: "ring_ok r"
  shows "push t v r =
    Some (r\<lparr>buf := (buf r)[2 * unat (head r AND msk r) := t,
                            Suc (2 * unat (head r AND msk r)) := v],
             head := head r + 1,
             tail := (if head r - tail r = cap r then tail r + 1 else tail r)\<rparr>)"
proof -
  note ix = ring_ok_index [OF ok, of "head r"]
  note sp = ring_ok_span [OF ok]
  let ?D = "head r - tail r"
  have D1: "head r + 1 - tail r = ?D + 1" by simp
  have uD1: "unat (?D + 1) = Suc (unat ?D)"
    using sp by (intro unat_succ_small) simp
  have gt: "head r + 1 - tail r > cap r \<longleftrightarrow> ?D = cap r"
  proof -
    have "head r + 1 - tail r > cap r \<longleftrightarrow> unat (cap r) < Suc (unat ?D)"
      by (simp only: D1 word_less_nat_alt uD1)
    also have "\<dots> \<longleftrightarrow> unat ?D = unat (cap r)"
      using sp(1) by auto
    also have "\<dots> \<longleftrightarrow> ?D = cap r"
      by (simp add: word_unat_eq_iff)
    finally show ?thesis .
  qed
  have tl: "head r + 1 - cap r = tail r + 1" if "?D = cap r"
  proof -
    have "head r = tail r + cap r"
      using that by (metis add.commute diff_add_cancel)
    then show ?thesis by simp
  qed
  show ?thesis
    using ix gt tl
    by (simp add: push_def Let_def)
qed

lemma mask_wrap:
  assumes j: "j \<le> 62"
  shows "((w :: size_t) + 2 ^ j) AND (2 ^ j - 1) = w AND (2 ^ j - 1)"
proof -
  have "unat (take_bit j (w + of_nat (2 ^ j))) = unat (take_bit j (w + of_nat 0))"
    by (simp only: unat_take_bit_add [OF j]) simp
  then have "take_bit j (w + 2 ^ j) = take_bit j w"
    by (simp add: word_unat_eq_iff)
  then show ?thesis
    by (simp only: and_cap_mask)
qed

lemma push_ok:
  assumes ok: "ring_ok r" and p: "push t v r = Some r'"
  shows "ring_ok r'" and "cap r' = cap r"
proof -
  note r' = p [unfolded push_eq [OF ok], simplified, symmetric]
  show "cap r' = cap r"
    by (simp add: r')
  have "head r + 1 - tail r \<le> cap r" if "head r - tail r \<noteq> cap r"
  proof -
    have "head r - tail r < cap r"
      using ok that by (simp add: ring_ok_def order.strict_iff_order)
    then have "head r - tail r + 1 \<le> cap r" by (rule inc_le)
    moreover have "head r + 1 - tail r = head r - tail r + 1" by simp
    ultimately show ?thesis by (simp only:)
  qed
  then show "ring_ok r'"
    using ok by (auto simp: r' ring_ok_def)
qed

lemma slot_written:
  assumes ok: "ring_ok r"
  shows "slot (r\<lparr>buf := (buf r)[2 * unat (head r AND msk r) := t,
                              Suc (2 * unat (head r AND msk r)) := v],
                 head := h', tail := t'\<rparr>) (head r) = (t, v)"
  using ring_ok_index(3,4) [OF ok, of "head r"]
  by (simp add: slot_def)

lemma slot_kept:
  assumes "k AND msk r \<noteq> head r AND msk r"
  shows "slot (r\<lparr>buf := (buf r)[2 * unat (head r AND msk r) := t,
                              Suc (2 * unat (head r AND msk r)) := v],
                 head := h', tail := t'\<rparr>) k = slot r k"
proof -
  have "unat (k AND msk r) \<noteq> unat (head r AND msk r)"
    using assms by (simp add: word_unat_eq_iff)
  then show ?thesis
    by (simp add: slot_def)
qed

lemma push_unread:
  assumes ok: "ring_ok r" and p: "push t v r = Some r'"
  shows "unread r' = keep_last (unat (cap r)) (unread r @ [(t, v)])"
proof -
  from ok obtain j where j: "j \<le> 62" "cap r = 2 ^ j" "msk r = 2 ^ j - 1"
    by (auto simp: ring_ok_def)
  note sp = ring_ok_span [OF ok]
  have C: "unat (cap r) = 2 ^ j"
    using j unat_cap [OF j(1)] by simp
  let ?D = "head r - tail r"
  let ?d = "unat ?D"
  let ?b = "(buf r)[2 * unat (head r AND msk r) := t, Suc (2 * unat (head r AND msk r)) := v]"
  have hd: "tail r + of_nat ?d = head r"
    by simp
  have len: "length (unread r) = ?d"
    by (simp add: unread_def)
  show ?thesis
  proof (cases "?D = cap r")
    case False
    let ?r' = "r\<lparr>buf := ?b, head := head r + 1, tail := tail r\<rparr>"
    have r': "r' = ?r'"
      using p False by (auto simp: push_eq [OF ok])
    have dlt: "?d < 2 ^ j"
      using sp(1) False C by (simp add: word_unat_eq_iff)
    have span: "unat (head ?r' - tail ?r') = Suc ?d"
    proof -
      have "head ?r' - tail ?r' = ?D + 1" by simp
      moreover have "unat (?D + 1) = Suc ?d"
        using sp by (intro unat_succ_small) simp
      ultimately show ?thesis by (simp only:)
    qed
    have old: "slot ?r' (tail r + of_nat i) = slot r (tail r + of_nat i)" if "i < ?d" for i
    proof (rule slot_kept)
      have "i < 2 ^ j" using that dlt by simp
      then have "(tail r + of_nat i) AND (2 ^ j - 1) \<noteq> (tail r + of_nat ?d) AND (2 ^ j - 1)"
        using slot_inj [OF j(1) _ dlt, of i "tail r"] that by auto
      then show "(tail r + of_nat i) AND msk r \<noteq> head r AND msk r"
        by (simp add: j(3))
    qed
    have "unread ?r' = map (\<lambda>i. slot ?r' (tail r + of_nat i)) [0..<?d]
                        @ [slot ?r' (tail r + of_nat ?d)]"
      unfolding unread_def span by simp
    also have "map (\<lambda>i. slot ?r' (tail r + of_nat i)) [0..<?d] = unread r"
      unfolding unread_def using old by simp
    also have "slot ?r' (tail r + of_nat ?d) = (t, v)"
      unfolding hd by (rule slot_written [OF ok])
    finally have "unread r' = unread r @ [(t, v)]"
      by (simp only: r')
    moreover have "keep_last (unat (cap r)) (unread r @ [(t, v)]) = unread r @ [(t, v)]"
      using dlt C by (simp add: keep_last_def len)
    ultimately show ?thesis by simp
  next
    case True
    let ?r' = "r\<lparr>buf := ?b, head := head r + 1, tail := tail r + 1\<rparr>"
    have r': "r' = ?r'"
      using p True by (auto simp: push_eq [OF ok])
    have d: "?d = 2 ^ j"
      using True C by simp
    obtain c where c: "(2::nat) ^ j = Suc c"
      by (metis Suc_pred zero_less_numeral zero_less_power)
    have span: "unat (head ?r' - tail ?r') = Suc c"
      using d c by simp
    have same: "head r AND (2 ^ j - 1) = tail r AND (2 ^ j - 1)"
    proof -
      have "head r = tail r + 2 ^ j"
        using True j(2) by (metis add.commute diff_add_cancel)
      then show ?thesis
        using mask_wrap [OF j(1), of "tail r"] by simp
    qed
    have old: "slot ?r' (tail r + of_nat (Suc i)) = slot r (tail r + of_nat (Suc i))"
      if "i < c" for i
    proof (rule slot_kept)
      have "Suc i < 2 ^ j" using that c by simp
      then have "(tail r + of_nat (Suc i)) AND (2 ^ j - 1) \<noteq> (tail r + of_nat 0) AND (2 ^ j - 1)"
        using slot_inj [OF j(1), of "Suc i" 0 "tail r"] by auto
      then show "(tail r + of_nat (Suc i)) AND msk r \<noteq> head r AND msk r"
        by (simp add: same j(3))
    qed
    have last: "tail r + 1 + of_nat c = head r"
    proof -
      have "tail r + 1 + of_nat c = tail r + of_nat (Suc c)" by simp
      also have "\<dots> = tail r + of_nat ?d" by (simp only: d c)
      finally show ?thesis by (simp only: hd)
    qed
    have "unread ?r' = map (\<lambda>i. slot ?r' (tail r + 1 + of_nat i)) [0..<c]
                        @ [slot ?r' (tail r + 1 + of_nat c)]"
      unfolding unread_def span by simp
    also have "map (\<lambda>i. slot ?r' (tail r + 1 + of_nat i)) [0..<c]
                 = map (\<lambda>i. slot r (tail r + of_nat (Suc i))) [0..<c]"
      using old by (simp add: add.assoc)
    also have "slot ?r' (tail r + 1 + of_nat c) = (t, v)"
      unfolding last by (rule slot_written [OF ok])
    finally have new: "unread r' = map (\<lambda>i. slot r (tail r + of_nat (Suc i))) [0..<c] @ [(t, v)]"
      by (simp only: r')
    have "unread r = map (\<lambda>i. slot r (tail r + of_nat i)) [0..<Suc c]"
      unfolding unread_def d c ..
    then have "drop 1 (unread r) = map (\<lambda>i. slot r (tail r + of_nat (Suc i))) [0..<c]"
      by (simp add: map_upt_Suc del: upt_Suc)
    moreover have "keep_last (unat (cap r)) (unread r @ [(t, v)]) = drop 1 (unread r) @ [(t, v)]"
      using C c d by (simp add: keep_last_def len)
    ultimately show ?thesis
      using new by simp
  qed
qed

section \<open>The constructor\<close>

lemma next_pow2_loop_pow:
  "j \<le> 62 \<Longrightarrow> v \<le> 2 ^ 62 \<Longrightarrow>
     \<exists>k. j \<le> k \<and> k \<le> 62 \<and> next_pow2_loop (2 ^ j) v = Some (2 ^ k) \<and> v \<le> 2 ^ k \<and>
         (k = j \<or> 2 ^ (k - 1) < v)"
proof (induction "62 - j" arbitrary: j)
  case 0
  then have j: "j = 62" by simp
  have "\<not> (2::size_t) ^ 62 < v"
    using "0.prems"(2) by simp
  then have "next_pow2_loop (2 ^ j) v = Some (2 ^ j)"
    unfolding j by (subst next_pow2_loop.simps) simp
  then show ?case
    using "0.prems" j by auto
next
  case (Suc n)
  show ?case
  proof (cases "(2::size_t) ^ j < v")
    case True
    have n: "n = 62 - Suc j" and j1: "Suc j \<le> 62"
      using Suc.hyps(2) by simp_all
    from Suc.hyps(1) [OF n j1 Suc.prems(2)] obtain k where
      k: "Suc j \<le> k" "k \<le> 62" "next_pow2_loop (2 ^ Suc j) v = Some (2 ^ k)" "v \<le> 2 ^ k"
         "k = Suc j \<or> 2 ^ (k - 1) < v"
      by blast
    have "next_pow2_loop (2 ^ j) v = next_pow2_loop (2 ^ Suc j) v"
      using True by (subst next_pow2_loop.simps) (simp add: push_bit_eq_mult mult.commute)
    then have "next_pow2_loop (2 ^ j) v = Some (2 ^ k)"
      using k(3) by simp
    moreover have "2 ^ (k - 1) < v"
      using k(5) True by auto
    ultimately show ?thesis
      using k by (intro exI [of _ k]) auto
  next
    case False
    then have "next_pow2_loop (2 ^ j) v = Some (2 ^ j)"
      by (subst next_pow2_loop.simps) simp
    then show ?thesis
      using False Suc.prems by auto
  qed
qed

lemma next_pow2_ok:
  assumes "capacity \<le> 2 ^ 62"
  shows "\<exists>k\<le>62. next_pow2 capacity = Some (2 ^ k) \<and> capacity \<le> 2 ^ k \<and>
                 (k = 0 \<or> 2 ^ (k - 1) < capacity)"
  using next_pow2_loop_pow [of 0 capacity] assms
  by (auto simp: next_pow2_def)

lemma SpscRing_new_ok:
  assumes "capacity \<le> 2 ^ 62"
  shows "\<exists>r :: ('a::zero) SpscRing. SpscRing_new capacity = Some r \<and> ring_ok r \<and> unread r = [] \<and>
             capacity \<le> cap r \<and> head r = 0 \<and> tail r = 0"
proof -
  from next_pow2_ok [OF assms] obtain k where
    k: "k \<le> 62" "next_pow2 capacity = Some (2 ^ k)" "capacity \<le> 2 ^ k"
    by blast
  have "unat ((2::size_t) ^ k * 2) = 2 * unat ((2::size_t) ^ k)"
    using pow62 [OF k(1)] by (simp add: unat_word_ariths unat_cap [OF k(1)])
  then show ?thesis
    using k by (auto simp: SpscRing_new_def ring_ok_def unread_def)
qed

section \<open>Histories of the ring\<close>

lemma pushed_append: "pushed (xs @ ys) = pushed xs @ pushed ys"
  by (induction xs rule: pushed.induct) simp_all

lemma pushed_map_Push: "pushed (map (\<lambda>(t, v). Push t v) xs) = xs"
  by (induction xs) auto

lemma keep_last_suffix: "suffix (keep_last n xs) xs"
  by (simp add: keep_last_def suffix_drop)

lemma keep_last_length: "length (keep_last n xs) \<le> n"
  by (simp add: keep_last_def)

lemma keep_last_all: "length xs \<le> n \<Longrightarrow> keep_last n xs = xs"
  by (simp add: keep_last_def)

lemma keep_last_append:
  "keep_last n (keep_last n xs @ ys) = keep_last n (xs @ ys)"
  by (cases "length xs \<le> n") (auto simp: keep_last_def add.commute)

lemma sublist_suffix_trans: "sublist xs ys \<Longrightarrow> suffix ys zs \<Longrightarrow> sublist xs zs"
  by (metis sublist_order.order.trans suffix_imp_sublist)

lemma run_append:
  "run (xs @ ys) r =
     (case run xs r of
        None \<Rightarrow> None
      | Some (outs, r') \<Rightarrow>
          (case run ys r' of None \<Rightarrow> None | Some (outs', r'') \<Rightarrow> Some (outs @ outs', r'')))"
  by (induction xs r rule: run.induct) (auto split: option.splits)

text \<open>The ring against a list: what one operation does to the unread samples.\<close>

lemma run_refines:
  "ring_ok r \<Longrightarrow>
     \<exists>outs r'. run ops r = Some (outs, r') \<and> ring_ok r' \<and> cap r' = cap r \<and>
        subseq (concat outs @ unread r') (unread r @ pushed ops) \<and>
        (\<forall>out \<in> set outs. sublist out (unread r @ pushed ops)) \<and>
        suffix (unread r') (unread r @ pushed ops)"
proof (induction ops arbitrary: r)
  case Nil
  then show ?case by simp
next
  case (Cons op ops)
  show ?case
  proof (cases op)
    case (Push t v)
    obtain r1 where r1: "push t v r = Some r1"
      using push_eq [OF Cons.prems] by blast
    note ok1 = push_ok [OF Cons.prems r1]
    have u1: "suffix (unread r1) (unread r @ [(t, v)])"
      unfolding push_unread [OF Cons.prems r1] by (rule keep_last_suffix)
    then have suf: "suffix (unread r1 @ pushed ops) (unread r @ pushed (op # ops))"
      using Push by (auto simp: suffix_def)
    from Cons.IH [OF ok1(1)] obtain outs r' where
      IH: "run ops r1 = Some (outs, r')" "ring_ok r'" "cap r' = cap r1"
        "subseq (concat outs @ unread r') (unread r1 @ pushed ops)"
        "\<forall>out \<in> set outs. sublist out (unread r1 @ pushed ops)"
        "suffix (unread r') (unread r1 @ pushed ops)"
      by blast
    have "run (op # ops) r = Some (outs, r')"
      using Push r1 IH(1) by simp
    moreover have "subseq (concat outs @ unread r') (unread r @ pushed (op # ops))"
      using IH(4) suf by (meson subseq_order.trans suffix_imp_subseq)
    moreover have "\<forall>out \<in> set outs. sublist out (unread r @ pushed (op # ops))"
      using IH(5) suf by (blast intro: sublist_suffix_trans)
    moreover have "suffix (unread r') (unread r @ pushed (op # ops))"
      using IH(6) suf by (rule suffix_order.trans)
    ultimately show ?thesis
      using IH(2,3) ok1(2) by auto
  next
    case PopAll
    let ?r1 = "r\<lparr>tail := head r\<rparr>"
    note p = pop_all_eq [OF Cons.prems]
    note ok1 = pop_all_ok [OF Cons.prems]
    from Cons.IH [OF ok1(1)] obtain outs r' where
      IH: "run ops ?r1 = Some (outs, r')" "ring_ok r'" "cap r' = cap ?r1"
        "subseq (concat outs @ unread r') (unread ?r1 @ pushed ops)"
        "\<forall>out \<in> set outs. sublist out (unread ?r1 @ pushed ops)"
        "suffix (unread r') (unread ?r1 @ pushed ops)"
      by blast
    have "run (op # ops) r = Some (unread r # outs, r')"
      using PopAll p IH(1) by simp
    moreover have "subseq (concat (unread r # outs) @ unread r') (unread r @ pushed (op # ops))"
      using IH(4) PopAll by (simp add: ok1(2) subseq_append')
    moreover have "\<forall>out \<in> set (unread r # outs). sublist out (unread r @ pushed (op # ops))"
      using IH(5) PopAll
      by (auto simp: ok1(2) intro: sublist_suffix_trans [OF _ suffix_appendI [OF suffix_order.refl]])
    moreover have "suffix (unread r') (unread r @ pushed (op # ops))"
      using IH(6) PopAll by (simp add: ok1(2) suffix_appendI)
    ultimately show ?thesis
      using IH(2,3) by auto
  qed
qed

lemma run_pushes:
  "ring_ok r \<Longrightarrow>
     \<exists>r'. run (map (\<lambda>(t, v). Push t v) xs) r = Some ([], r') \<and> ring_ok r' \<and> cap r' = cap r \<and>
          unread r' = keep_last (unat (cap r)) (unread r @ xs)"
proof (induction xs arbitrary: r)
  case Nil
  then show ?case
    using ring_ok_span(1) [OF Nil] by (simp add: keep_last_all unread_def)
next
  case (Cons x xs)
  obtain t v where x: "x = (t, v)" by (cases x)
  obtain r1 where r1: "push t v r = Some r1"
    using push_eq [OF Cons.prems] by blast
  note ok1 = push_ok [OF Cons.prems r1]
  from Cons.IH [OF ok1(1)] obtain r' where
    IH: "run (map (\<lambda>(t, v). Push t v) xs) r1 = Some ([], r')" "ring_ok r'" "cap r' = cap r1"
      "unread r' = keep_last (unat (cap r1)) (unread r1 @ xs)"
    by blast
  have "unread r' = keep_last (unat (cap r)) (unread r @ x # xs)"
    using keep_last_append [of "unat (cap r)" "unread r @ [x]" xs]
    by (simp add: IH(4) ok1(2) push_unread [OF Cons.prems r1] x)
  then show ?case
    using IH(1,2,3) ok1(2) r1 x by simp
qed

lemma run_timely:
  "ring_ok r \<Longrightarrow> timely (unat (cap r)) (length (unread r)) ops \<Longrightarrow>
     \<exists>outs r'. run ops r = Some (outs, r') \<and> ring_ok r' \<and> cap r' = cap r \<and>
        concat outs @ unread r' = unread r @ pushed ops"
proof (induction ops arbitrary: r)
  case Nil
  then show ?case by simp
next
  case (Cons op ops)
  show ?case
  proof (cases op)
    case (Push t v)
    obtain r1 where r1: "push t v r = Some r1"
      using push_eq [OF Cons.prems(1)] by blast
    note ok1 = push_ok [OF Cons.prems(1) r1]
    have u1: "unread r1 = unread r @ [(t, v)]"
      using Cons.prems(2) Push
      by (simp add: push_unread [OF Cons.prems(1) r1] keep_last_all)
    have "timely (unat (cap r1)) (length (unread r1)) ops"
      using Cons.prems(2) Push by (simp add: u1 ok1(2))
    from Cons.IH [OF ok1(1) this] show ?thesis
      using Push r1 u1 ok1(2) by auto
  next
    case PopAll
    note p = pop_all_eq [OF Cons.prems(1)]
    note ok1 = pop_all_ok [OF Cons.prems(1)]
    have "timely (unat (cap (r\<lparr>tail := head r\<rparr>))) (length (unread (r\<lparr>tail := head r\<rparr>))) ops"
      using Cons.prems(2) PopAll by (simp add: ok1(2))
    from Cons.IH [OF ok1(1) this] show ?thesis
      using PopAll p ok1(2) by auto
  qed
qed

section \<open>Capacities the ring cannot serve\<close>

text \<open>Above \<open>2 ^ 63\<close> the constructor never returns; between \<open>2 ^ 62\<close> and \<open>2 ^ 63\<close> the
  size \<^verbatim>\<open>_cap * 2\<close> of the storage wraps to 0 and every push is out of range.\<close>

lemma pow2_le_top:
  assumes "k \<le> 63"
  shows "(2 :: size_t) ^ k \<le> 2 ^ 63"
proof -
  have u: "unat ((2 :: size_t) ^ n) = 2 ^ n" if "n \<le> 63" for n
  proof -
    have "(0 :: size_t) < 2 ^ n"
      using that by (simp add: word_gt_0)
    then have "uint ((2 :: size_t) ^ n) = 2 ^ n"
      by (rule uint_2p)
    then show ?thesis
      by (simp add: unat_eq_nat_uint)
  qed
  have "(2 :: nat) ^ k \<le> 2 ^ 63"
    using assms by (intro power_increasing) simp_all
  then have "unat ((2 :: size_t) ^ k) \<le> unat ((2 :: size_t) ^ 63)"
    using u [OF assms] u [of 63] by simp
  then show ?thesis
    by (simp only: word_le_nat_alt)
qed

lemma next_pow2_loop_diverges:
  assumes "next_pow2_loop p0 v0 = Some y0"
  shows "\<not> (2 ^ 63 < v0 \<and> (p0 = 0 \<or> (\<exists>k\<le>63. p0 = 2 ^ k)))"
proof (rule next_pow2_loop.raw_induct
    [where P = "\<lambda>p v y. \<not> (2 ^ 63 < v \<and> (p = 0 \<or> (\<exists>k\<le>63. p = 2 ^ k)))", OF _ assms])
  fix f :: "size_t \<Rightarrow> size_t \<Rightarrow> size_t option" and p v y :: size_t
  assume IH: "\<And>p v y. f p v = Some y \<Longrightarrow>
                 \<not> (2 ^ 63 < v \<and> (p = 0 \<or> (\<exists>k\<le>63. p = 2 ^ k)))"
    and step: "(if p < v then f (push_bit 1 p) v else Some p) = Some y"
  show "\<not> (2 ^ 63 < v \<and> (p = 0 \<or> (\<exists>k\<le>63. p = 2 ^ k)))"
  proof
    assume a: "2 ^ 63 < v \<and> (p = 0 \<or> (\<exists>k\<le>63. p = 2 ^ k))"
    then have v: "2 ^ 63 < v" and p: "p = 0 \<or> (\<exists>k\<le>63. p = 2 ^ k)"
      by simp_all
    have le: "p \<le> 2 ^ 63"
      using p pow2_le_top by auto
    have "p < v"
      using le v by (rule order_le_less_trans)
    then have f: "f (push_bit 1 p) v = Some y"
      using step by simp
    have "push_bit 1 p = 0 \<or> (\<exists>k\<le>63. push_bit 1 p = 2 ^ k)"
    proof (cases "p = 0")
      case True
      then show ?thesis by simp
    next
      case False
      then obtain k where k: "k \<le> 63" "p = 2 ^ k"
        using p by blast
      show ?thesis
      proof (cases "k = 63")
        case True
        then have "push_bit 1 p = 0"
          using k by (simp add: push_bit_eq_mult)
        then show ?thesis by simp
      next
        case False
        then have "Suc k \<le> 63" "push_bit 1 p = 2 ^ Suc k"
          using k by (simp_all add: push_bit_eq_mult)
        then show ?thesis by blast
      qed
    qed
    with IH [OF f] v show False by blast
  qed
qed

lemma next_pow2_diverges: "2 ^ 63 < v \<Longrightarrow> next_pow2 v = None"
  using next_pow2_loop_diverges [of 1 v]
  by (cases "next_pow2 v") (auto simp: next_pow2_def intro: exI [of _ 0])

lemma next_pow2_loop_top:
  "j \<le> 63 \<Longrightarrow> 2 ^ 62 < v \<Longrightarrow> v \<le> 2 ^ 63 \<Longrightarrow> next_pow2_loop (2 ^ j) v = Some (2 ^ 63)"
proof (induction "63 - j" arbitrary: j)
  case 0
  then have j: "j = 63" by simp
  have "\<not> (2::size_t) ^ 63 < v"
    using "0.prems"(3) by simp
  then show ?case
    unfolding j by (subst next_pow2_loop.simps) simp
next
  case (Suc n)
  have n: "n = 63 - Suc j" and j1: "Suc j \<le> 63" and j62: "j \<le> 62"
    using Suc.hyps(2) by simp_all
  have "(2 :: size_t) ^ j \<le> 2 ^ 62"
  proof -
    have "unat ((2 :: size_t) ^ j) \<le> unat ((2 :: size_t) ^ 62)"
      using unat_cap [OF j62] unat_cap [of 62] pow62 [OF j62] by simp
    then show ?thesis by (simp only: word_le_nat_alt)
  qed
  then have lt: "2 ^ j < v"
    using Suc.prems(2) by (rule order_le_less_trans)
  have "next_pow2_loop (2 ^ j) v = next_pow2_loop (2 ^ Suc j) v"
    using lt by (subst next_pow2_loop.simps) (simp add: push_bit_eq_mult mult.commute)
  then show ?case
    using Suc.hyps(1) [OF n j1 Suc.prems(2,3)] by simp
qed

lemma SpscRing_new_unusable:
  assumes "2 ^ 62 < capacity" and "capacity \<le> 2 ^ 63"
  shows "\<exists>r :: ('a::zero) SpscRing. SpscRing_new capacity = Some r \<and> buf r = [] \<and> push t v r = None"
proof -
  have "next_pow2 capacity = Some (2 ^ 63)"
    using next_pow2_loop_top [of 0 capacity] assms by (simp add: next_pow2_def)
  then show ?thesis
    by (simp add: SpscRing_new_def push_def)
qed

section \<open>Properties of the sample ring\<close>

lemma push_bound: "push t v r = Some r' \<Longrightarrow> head r' - tail r' \<le> cap r'"
  by (auto simp: push_def Let_def split: if_splits)

lemma run_single_pop:
  assumes "ring_ok r"
  shows "\<exists>out r'. pop_all r = Some (out, r') \<and> pop_all r' = Some ([], r') \<and>
           length out \<le> unat (cap r)"
proof -
  note ok1 = pop_all_ok [OF assms]
  have "pop_all (r\<lparr>tail := head r\<rparr>) = Some ([], r\<lparr>tail := head r\<rparr>)"
    using pop_all_eq [OF ok1(1)] ok1(2) by simp
  moreover have "length (unread r) \<le> unat (cap r)"
    using ring_ok_span(1) [OF assms] by (simp add: unread_def)
  ultimately show ?thesis
    using pop_all_eq [OF assms] by simp
qed

text \<open>
  C1 (drop-oldest correctness).  In a ring built for any requested capacity up to
  \<open>2 ^ 62\<close>, with \<open>C\<close> its capacity \<open>cap r0\<close>: after any history \<open>ops\<close>, pushing the
  \<open>C + k\<close> samples \<open>xs\<close> (\<open>k > 0\<close>) with no \<open>pop_all\<close> in between makes the next \<open>pop_all\<close>
  return exactly the last \<open>C\<close> of them, \<open>drop k xs\<close>, in push order.  And the scenario:
  capacity 8, the pushes \<open>(0,0)\<close>, \<dots>, \<open>(11,11)\<close>, then \<open>pop_all\<close> returns
  \<open>(4,4)\<close>, \<dots>, \<open>(11,11)\<close>.
\<close>

theorem drop_oldest_keeps_last:
  "(capacity \<le> 2 ^ 62 \<and> SpscRing_new capacity = Some r0 \<and>
    length xs = unat (cap r0) + k \<and> 0 < k \<longrightarrow>
      (\<exists>outs r. run (ops @ map (\<lambda>(t, v). Push t v) xs @ [PopAll]) r0
                  = Some (outs @ [drop k xs], r))) \<and>
   Option.bind (SpscRing_new 8)
       (run (map (\<lambda>n. Push (of_nat n) (of_nat n)) [0..<12] @ [PopAll])) =
     Some ([[(4, 4), (5, 5), (6, 6), (7, 7), (8, 8), (9, 9), (10, 10), (11 :: real, 11 :: real)]],
           \<lparr>cap = 8, msk = 7,
              buf = [8, 8, 9, 9, 10, 10, 11, 11, 4, 4, 5, 5, 6, 6, 7, 7],
              head = 12, tail = 12\<rparr>)"
proof (intro conjI impI)
  assume h: "capacity \<le> 2 ^ 62 \<and> SpscRing_new capacity = Some r0 \<and>
             length xs = unat (cap r0) + k \<and> 0 < k"
  then have ok0: "ring_ok r0"
    using SpscRing_new_ok [of capacity, where ?'a = 'a] by auto
  from run_refines [OF ok0, of ops] obtain outs r1 where
    r1: "run ops r0 = Some (outs, r1)" "ring_ok r1" "cap r1 = cap r0"
    by blast
  from run_pushes [OF r1(2), of xs] obtain r2 where
    r2: "run (map (\<lambda>(t, v). Push t v) xs) r1 = Some ([], r2)" "ring_ok r2"
      "unread r2 = keep_last (unat (cap r1)) (unread r1 @ xs)"
    by blast
  have "unread r2 = drop k xs"
    using h by (simp add: r2(3) r1(3) keep_last_def)
  then have "run [PopAll] r2 = Some ([drop k xs], r2\<lparr>tail := head r2\<rparr>)"
    using pop_all_eq [OF r2(2)] by simp
  then have "run (ops @ map (\<lambda>(t, v). Push t v) xs @ [PopAll]) r0
               = Some (outs @ [drop k xs], r2\<lparr>tail := head r2\<rparr>)"
    using r1(1) r2(1) by (simp add: run_append)
  then show "\<exists>outs r. run (ops @ map (\<lambda>(t, v). Push t v) xs @ [PopAll]) r0
                        = Some (outs @ [drop k xs], r)"
    by blast
next
  show "Option.bind (SpscRing_new 8)
       (run (map (\<lambda>n. Push (of_nat n) (of_nat n)) [0..<12] @ [PopAll])) =
     Some ([[(4, 4), (5, 5), (6, 6), (7, 7), (8, 8), (9, 9), (10, 10), (11 :: real, 11 :: real)]],
           \<lparr>cap = 8, msk = 7,
              buf = [8, 8, 9, 9, 10, 10, 11, 11, 4, 4, 5, 5, 6, 6, 7, 7],
              head = 12, tail = 12\<rparr>)"
    by code_simp
qed

theorem drop_oldest_keeps_last_witness:
  "SpscRing_new 4 = Some \<lparr>cap = 4, msk = 3, buf = replicate 8 (0 :: int), head = 0, tail = 0\<rparr> \<and>
   (\<exists>outs r. run ([Push 7 70, Push 8 80, PopAll, Push 9 90]
                   @ map (\<lambda>(t, v). Push t v) [(1, 10), (2, 20), (3, 30), (4, 40), (5, 50), (6, 60)]
                   @ [PopAll])
                \<lparr>cap = 4, msk = 3, buf = replicate 8 (0 :: int), head = 0, tail = 0\<rparr>
              = Some (outs @ [[(3, 30), (4, 40), (5, 50), (6, 60)]], r))"
proof -
  let ?r0 = "\<lparr>cap = 4, msk = 3, buf = replicate 8 (0 :: int), head = 0, tail = 0\<rparr>"
  have n: "SpscRing_new 4 = Some ?r0"
    by (simp add: SpscRing_new_def next_pow2_def next_pow2_loop.simps)
  have "(4 :: size_t) \<le> 2 ^ 62 \<and> SpscRing_new 4 = Some ?r0 \<and>
        length [(1, 10), (2, 20), (3, 30), (4, 40), (5, 50), (6 :: int, 60 :: int)]
          = unat (cap ?r0) + 2 \<and> 0 < (2 :: nat)"
    using n by simp
  with drop_oldest_keeps_last
         [of 4 ?r0 "[(1, 10), (2, 20), (3, 30), (4, 40), (5, 50), (6, 60)]" 2
             "[Push 7 70, Push 8 80, PopAll, Push 9 90]"]
  show ?thesis
    using n by simp
qed

lemma subseq_append_left: "subseq (xs @ ys) zs \<Longrightarrow> subseq xs zs"
proof -
  assume a: "subseq (xs @ ys) zs"
  have "subseq xs (xs @ ys)"
    by (simp add: prefix_imp_subseq)
  then show ?thesis
    using a by (rule subseq_order.trans)
qed

lemma subseq_distinct: "subseq xs ys \<Longrightarrow> distinct ys \<Longrightarrow> distinct xs"
  by (auto simp: subseq_conv_nths)

text \<open>
  C2 (bounded memory).  For a requested capacity up to \<open>2 ^ 62\<close> the constructor returns
  a ring whose capacity \<open>C\<close> is the least power of two that is at least the request; after
  every history of pushes and \<open>pop_all\<close> calls \<open>C\<close> is unchanged, \<open>head - tail \<le> C\<close>, and
  a \<open>pop_all\<close> finds at most \<open>C\<close> unread samples.  (That a single push re-establishes
  the bound, whatever the ring it starts from, is \<open>push_bound\<close>.)
\<close>

theorem bounded_memory:
  assumes "capacity \<le> 2 ^ 62"
  shows "\<exists>r0 j outs r out r'.
           SpscRing_new capacity = Some r0 \<and>
           cap r0 = 2 ^ j \<and> capacity \<le> 2 ^ j \<and> (j = 0 \<or> 2 ^ (j - 1) < capacity) \<and>
           run ops r0 = Some (outs, r) \<and> cap r = cap r0 \<and> head r - tail r \<le> cap r0 \<and>
           pop_all r = Some (out, r') \<and> length out \<le> unat (cap r0)"
proof -
  from next_pow2_ok [OF assms] obtain j where
    j: "j \<le> 62" "next_pow2 capacity = Some (2 ^ j)" "capacity \<le> 2 ^ j"
       "j = 0 \<or> 2 ^ (j - 1) < capacity"
    by blast
  from SpscRing_new_ok [OF assms, where ?'a = 'a] obtain r0 :: "'a SpscRing" where
    r0: "SpscRing_new capacity = Some r0" "ring_ok r0"
    by blast
  have c: "cap r0 = 2 ^ j"
    using r0(1) j(2) by (auto simp: SpscRing_new_def)
  from run_refines [OF r0(2), of ops] obtain outs r where
    r: "run ops r0 = Some (outs, r)" "ring_ok r" "cap r = cap r0"
    by blast
  from run_single_pop [OF r(2)] obtain out r' where
    p: "pop_all r = Some (out, r')" "length out \<le> unat (cap r)"
    by blast
  have "head r - tail r \<le> cap r0"
    using r(2,3) by (simp add: ring_ok_def)
  then show ?thesis
    using r0(1) c j(3,4) r(1,3) p
    by (intro exI [of _ r0] exI [of _ j] exI [of _ outs] exI [of _ r] exI [of _ out]
        exI [of _ r']) simp
qed

theorem bounded_memory_witness:
  "\<exists>r0 outs r out r'.
      SpscRing_new 5 = Some (r0 :: int SpscRing) \<and> cap r0 = 8 \<and>
      run (map (\<lambda>n. Push (int n) 0) [0..<20]) r0 = Some (outs, r) \<and> cap r = 8 \<and>
      head r - tail r \<le> 8 \<and> pop_all r = Some (out, r') \<and> length out \<le> 8"
proof -
  have "(5 :: size_t) \<le> 2 ^ 62" by simp
  from bounded_memory [OF this, of "map (\<lambda>n. Push (int n) 0) [0..<20]"]
  obtain r0 :: "int SpscRing" and outs r out r' where
    r: "SpscRing_new 5 = Some r0"
       "run (map (\<lambda>n. Push (int n) 0) [0..<20]) r0 = Some (outs, r)" "cap r = cap r0"
       "head r - tail r \<le> cap r0" "pop_all r = Some (out, r')" "length out \<le> unat (cap r0)"
    by blast
  have "cap r0 = 8"
    using r(1) by (auto simp: SpscRing_new_def next_pow2_def next_pow2_loop.simps)
  then show ?thesis
    using r by (intro exI [of _ r0] exI [of _ outs] exI [of _ r] exI [of _ out] exI [of _ r']) simp
qed

text \<open>
  C3 (order preservation, no duplication).  For every history \<open>ops\<close> of a ring built for a
  capacity up to \<open>2 ^ 62\<close>: the outputs of the successive \<open>pop_all\<close> calls, concatenated,
  are a subsequence of the push order (nothing reordered, nothing delivered twice: if the
  pushed samples are pairwise different, so are the delivered ones); each single output
  is a contiguous block of the push order; and a \<open>pop_all\<close> that follows a \<open>pop_all\<close> with
  no push in between returns the empty list.
\<close>

theorem order_preserved:
  assumes "capacity \<le> 2 ^ 62"
  shows "\<exists>r0 outs r out r'.
           SpscRing_new capacity = Some r0 \<and> run ops r0 = Some (outs, r) \<and>
           subseq (concat outs) (pushed ops) \<and>
           (distinct (pushed ops) \<longrightarrow> distinct (concat outs)) \<and>
           list_all (\<lambda>out. sublist out (pushed ops)) outs \<and>
           pop_all r = Some (out, r') \<and> pop_all r' = Some ([], r')"
proof -
  from SpscRing_new_ok [OF assms, where ?'a = 'a] obtain r0 :: "'a SpscRing" where
    r0: "SpscRing_new capacity = Some r0" "ring_ok r0" "unread r0 = []"
    by blast
  from run_refines [OF r0(2), of ops] obtain outs r where
    r: "run ops r0 = Some (outs, r)" "ring_ok r"
       "subseq (concat outs @ unread r) (pushed ops)"
       "\<forall>out \<in> set outs. sublist out (pushed ops)"
    unfolding r0(3) by auto
  from run_single_pop [OF r(2)] obtain out r' where
    p: "pop_all r = Some (out, r')" "pop_all r' = Some ([], r')"
    by blast
  have s: "subseq (concat outs) (pushed ops)"
    using r(3) by (rule subseq_append_left)
  then have "distinct (pushed ops) \<longrightarrow> distinct (concat outs)"
    by (blast intro: subseq_distinct)
  moreover have "list_all (\<lambda>out. sublist out (pushed ops)) outs"
    using r(4) by (simp add: list_all_iff)
  ultimately show ?thesis
    using r0(1) r(1) s p
    by (intro exI [of _ r0] exI [of _ outs] exI [of _ r] exI [of _ out] exI [of _ r']) simp
qed

theorem order_preserved_witness:
  "(2 :: size_t) \<le> 2 ^ 62 \<and>
   (\<exists>r0 outs r out r'.
      SpscRing_new 2 = Some (r0 :: int SpscRing) \<and>
      run [Push 1 10, PopAll, PopAll, Push 2 20, Push 3 30, Push 4 40, PopAll] r0
        = Some (outs, r) \<and>
      subseq (concat outs) [(1, 10), (2, 20), (3, 30), (4, 40)] \<and>
      distinct (concat outs) \<and>
      list_all (\<lambda>out. sublist out [(1, 10), (2, 20), (3, 30), (4, 40)]) outs \<and>
      pop_all r = Some (out, r') \<and> pop_all r' = Some ([], r'))"
proof -
  have "(2 :: size_t) \<le> 2 ^ 62" by simp
  from this order_preserved
    [OF this, of "[Push 1 10, PopAll, PopAll, Push 2 20, Push 3 30, Push 4 (40 :: int), PopAll]"]
  show ?thesis by simp
qed

text \<open>
  C4 (no loss under timely consumption).  In a ring of capacity \<open>C = cap r0\<close> built for a
  requested capacity up to \<open>2 ^ 62\<close>: if the history never lets more than \<open>C\<close> pushes pass
  without a \<open>pop_all\<close>, then once a last \<open>pop_all\<close> has run, the outputs of all the
  \<open>pop_all\<close> calls, concatenated, are exactly the pushed samples in push order: each one
  returned, and returned once.
\<close>

theorem timely_no_loss:
  assumes "capacity \<le> 2 ^ 62" and "SpscRing_new capacity = Some r0"
    and "timely (unat (cap r0)) 0 ops"
  shows "\<exists>outs r. run (ops @ [PopAll]) r0 = Some (outs, r) \<and> concat outs = pushed ops"
proof -
  from SpscRing_new_ok [OF assms(1), where ?'a = 'a] assms(2)
  have r0: "ring_ok r0" "unread r0 = []"
    by auto
  have "timely (unat (cap r0)) (length (unread r0)) ops"
    using assms(3) r0(2) by simp
  from run_timely [OF r0(1) this] obtain outs r where
    r: "run ops r0 = Some (outs, r)" "ring_ok r" "concat outs @ unread r = pushed ops"
    unfolding r0(2) by auto
  have "run (ops @ [PopAll]) r0 = Some (outs @ [unread r], r\<lparr>tail := head r\<rparr>)"
    using r(1) pop_all_eq [OF r(2)] by (simp add: run_append)
  then show ?thesis
    using r(3) by simp
qed

theorem timely_no_loss_witness:
  "SpscRing_new 2 = Some \<lparr>cap = 2, msk = 1, buf = replicate 4 (0 :: int), head = 0, tail = 0\<rparr> \<and>
   timely 2 0 [Push 1 10, Push 2 20, PopAll, Push 3 30, PopAll, Push 4 40, Push 5 (50 :: int)] \<and>
   (\<exists>outs r. run ([Push 1 10, Push 2 20, PopAll, Push 3 30, PopAll, Push 4 40, Push 5 50] @ [PopAll])
                \<lparr>cap = 2, msk = 1, buf = replicate 4 (0 :: int), head = 0, tail = 0\<rparr>
              = Some (outs, r) \<and>
              concat outs = [(1, 10), (2, 20), (3, 30), (4, 40), (5, 50)])"
proof -
  let ?r0 = "\<lparr>cap = 2, msk = 1, buf = replicate 4 (0 :: int), head = 0, tail = 0\<rparr>"
  let ?ops = "[Push 1 10, Push 2 20, PopAll, Push 3 30, PopAll, Push 4 40, Push 5 (50 :: int)]"
  have a: "(2 :: size_t) \<le> 2 ^ 62" by simp
  have n: "SpscRing_new 2 = Some ?r0"
    by (simp add: SpscRing_new_def next_pow2_def next_pow2_loop.simps)
  have t: "timely (unat (cap ?r0)) 0 ?ops"
    by simp
  from timely_no_loss [OF a n t] n t show ?thesis
    by simp
qed
section \<open>Properties of the stream controller\<close>

lemma keep_last_set: "set (keep_last n xs) \<subseteq> set xs"
  by (simp add: keep_last_def set_drop_subset)

lemma NativeShimmer_new_eq:
  "NativeShimmer_new =
     Some \<lparr>port = [], running = False, connected' = False, thread = NoThread,
           queue = \<lparr>cap = 4096, msk = 4095, buf = replicate 8192 0, head = 0, tail = 0\<rparr>,
           rng = 0x12345678\<rparr>"
  by (simp add: NativeShimmer_new_def SpscRing_new_def next_pow2_def next_pow2_loop.simps)

lemma NativeShimmer_new_ok:
  "\<exists>s0. NativeShimmer_new = Some s0 \<and> shimmer_ok s0"
proof -
  have "(4096 :: size_t) \<le> 2 ^ 62" by simp
  from SpscRing_new_ok [OF this, where ?'a = real] obtain q :: "real SpscRing" where
    q: "SpscRing_new 4096 = Some q" "ring_ok q" "unread q = []"
    by blast
  then show ?thesis
    by (simp add: NativeShimmer_new_def shimmer_ok_def joinable_def)
qed

lemma connect_ok: "shimmer_ok s \<Longrightarrow> shimmer_ok (snd (connect p s))"
  by (simp add: connect_def shimmer_ok_def Let_def)

lemma start_streaming_ok:
  assumes "shimmer_ok s"
  shows "fst (start_streaming s) \<noteq> Inl Terminate" and "fst (start_streaming s) \<noteq> Inl UndefinedBehaviour"
    and "shimmer_ok (snd (start_streaming s))"
  using assms by (auto simp: start_streaming_def shimmer_ok_def Let_def joinable_def)

lemma stop_streaming_ok:
  assumes "shimmer_ok s"
  shows "fst (stop_streaming s) = Inr ()" and "shimmer_ok (snd (stop_streaming s))"
  using assms by (auto simp: stop_streaming_def shimmer_ok_def Let_def joinable_def)

lemma get_latest_samples_ok:
  assumes "shimmer_ok s"
  shows "\<exists>out s'. get_latest_samples s = (Inr out, s') \<and> shimmer_ok s' \<and>
            (\<forall>x \<in> set out. 0.1 \<le> snd x)"
proof -
  have ok: "ring_ok (queue s)"
    using assms by (simp add: shimmer_ok_def)
  note p = pop_all_eq [OF ok]
  note ok1 = pop_all_ok [OF ok]
  have "get_latest_samples s = (Inr (unread (queue s)), s\<lparr>queue := (queue s)\<lparr>tail := head (queue s)\<rparr>\<rparr>)"
    by (simp add: get_latest_samples_def p)
  moreover have "shimmer_ok (s\<lparr>queue := (queue s)\<lparr>tail := head (queue s)\<rparr>\<rparr>)"
    using assms ok1 by (simp add: shimmer_ok_def)
  moreover have "\<forall>x \<in> set (unread (queue s)). 0.1 \<le> snd x"
    using assms by (simp add: shimmer_ok_def)
  ultimately show ?thesis by blast
qed

lemma loop_body_ok:
  assumes "shimmer_ok s"
  shows "\<exists>s' lv'. loop_body now s lv = Some (s', lv') \<and> running s' = running s \<and>
            ring_ok (queue s') \<and> (\<forall>x \<in> set (unread (queue s')). 0.1 \<le> snd x)"
proof (cases "now < t_next lv")
  case True
  then show ?thesis
    using assms by (simp add: loop_body_def shimmer_ok_def)
next
  case False
  have ok: "ring_ok (queue s)"
    using assms by (simp add: shimmer_ok_def)
  define g where "g = max 0.1 (8.0 + 2.0 * sin (phase lv * 0.1) + 1.5 * sin (phase lv * 0.5) +
      0.5 * sin (phase lv * 2.0) +
      (real (unat (drop_bit 16 (1664525 * rng s + 1013904223))) / 32768.0 - 1.0) * 0.2)"
  have g: "0.1 \<le> g"
    unfolding g_def by (rule max.cobounded1)
  obtain q where q: "push now g (queue s) = Some q"
    using push_eq [OF ok] by blast
  note okq = push_ok [OF ok q]
  have "set (unread q) \<subseteq> set (unread (queue s) @ [(now, g)])"
    unfolding push_unread [OF ok q] by (rule keep_last_set)
  then have vals: "\<forall>x \<in> set (unread q). 0.1 \<le> snd x"
    using assms g by (auto simp: shimmer_ok_def)
  have "\<exists>lv'. loop_body now s lv = Some (s\<lparr>queue := q, rng := 1664525 * rng s + 1013904223\<rparr>, lv')"
    using False q unfolding loop_body_def g_def by (simp add: Let_def)
  then show ?thesis
    using okq(1) vals assms by (auto simp: shimmer_ok_def)
qed

lemma thread_step_ok:
  assumes "shimmer_ok s"
  shows "\<exists>s'. thread_step now s = Some s' \<and> shimmer_ok s'"
proof (cases "thread s")
  case NoThread
  then show ?thesis using assms by (simp add: thread_step_def)
next
  case Started
  then show ?thesis using assms by (simp add: thread_step_def shimmer_ok_def joinable_def)
next
  case (Looping lv)
  show ?thesis
  proof (cases "running s")
    case True
    from loop_body_ok [OF assms, of now lv] obtain s' lv' where
      b: "loop_body now s lv = Some (s', lv')" "running s' = running s" "ring_ok (queue s')"
         "\<forall>x \<in> set (unread (queue s')). 0.1 \<le> snd x"
      by blast
    have "thread_step now s = Some (s'\<lparr>thread := Looping lv'\<rparr>)"
      using Looping True b(1) by (simp add: thread_step_def)
    moreover have "shimmer_ok (s'\<lparr>thread := Looping lv'\<rparr>)"
      using b(2,3,4) True by (simp add: shimmer_ok_def joinable_def)
    ultimately show ?thesis by blast
  next
    case False
    then show ?thesis
      using assms Looping by (simp add: thread_step_def shimmer_ok_def joinable_def)
  qed
next
  case Exited
  then show ?thesis using assms by (simp add: thread_step_def)
qed

lemma call_step_ok:
  assumes "shimmer_ok s"
  shows "\<exists>res s'. call_step c s = (res, s') \<and> shimmer_ok s' \<and>
           res \<noteq> Inl Terminate \<and> res \<noteq> Inl UndefinedBehaviour \<and>
           (\<forall>xs. res = Inr (Samples xs) \<longrightarrow> (\<forall>x \<in> set xs. 0.1 \<le> snd x))"
proof (cases c)
  case (Connect p)
  then show ?thesis
    using connect_ok [OF assms, of p]
    by (auto simp: connect_def Let_def)
next
  case StartStreaming
  then show ?thesis
    using start_streaming_ok [OF assms]
    by (cases "start_streaming s") (auto simp: map_sum_def split: sum.splits)
next
  case StopStreaming
  then show ?thesis
    using stop_streaming_ok [OF assms]
    by (cases "stop_streaming s") auto
next
  case GetLatestSamples
  then show ?thesis
    using get_latest_samples_ok [OF assms] by auto
next
  case (ThreadStep now)
  then show ?thesis
    using thread_step_ok [OF assms, of now] by auto
qed

lemma exec_ok:
  "shimmer_ok s \<Longrightarrow>
     \<exists>rs s'. exec cs s = Some (rs, s') \<and> shimmer_ok s' \<and>
              (\<forall>x \<in> set (samples_of rs). 0.1 \<le> snd x)"
proof (induction cs arbitrary: s)
  case Nil
  then show ?case by simp
next
  case (Cons c cs)
  from call_step_ok [OF Cons.prems, of c] obtain res s1 where
    c: "call_step c s = (res, s1)" "shimmer_ok s1" "res \<noteq> Inl Terminate"
       "res \<noteq> Inl UndefinedBehaviour"
       "\<forall>xs. res = Inr (Samples xs) \<longrightarrow> (\<forall>x \<in> set xs. 0.1 \<le> snd x)"
    by blast
  from Cons.IH [OF c(2)] obtain rs s' where
    IH: "exec cs s1 = Some (rs, s')" "shimmer_ok s'" "\<forall>x \<in> set (samples_of rs). 0.1 \<le> snd x"
    by blast
  show ?case
  proof (cases res)
    case (Inl e)
    then obtain m where "e = RuntimeError m"
      using c(3,4) by (cases e) auto
    then show ?thesis
      using Inl c(1) IH by simp
  next
    case (Inr r)
    have "\<forall>x \<in> set (samples_of (r # rs)). 0.1 \<le> snd x"
      using c(5) IH(3) Inr by (cases r) auto
    then show ?thesis
      using Inr c(1) IH(1,2) by simp
  qed
qed

lemma reachable_ok:
  "\<exists>s0 rs s. NativeShimmer_new = Some s0 \<and> exec cs s0 = Some (rs, s) \<and> shimmer_ok s \<and>
              (\<forall>x \<in> set (samples_of rs). 0.1 \<le> snd x)"
  using NativeShimmer_new_ok exec_ok by blast

text \<open>
  C5 (connect).  In the code the one target that cannot be reached is the port name
  \<^verbatim>\<open>"FAIL"\<close>.  \<open>connect\<close> raises, with the connection failure message, exactly for that
  target, and then the stream is not connected; for every other target it returns, has
  recorded the port and is connected (a stream whose loop is not running is then in
  \<open>Connected\<close>).  Whatever the first target was, a later \<open>connect\<close> with a reachable target
  succeeds.
\<close>

theorem connect_error_handling:
  "(isl (fst (connect target s)) \<longleftrightarrow> target = ''FAIL'') \<and>
   (target = ''FAIL'' \<longrightarrow>
      connect target s =
        (Inl (RuntimeError (''Failed to connect to Shimmer device at port: '' @ target)),
         s\<lparr>port := target, connected' := False\<rparr>) \<and>
      \<not> is_connected (snd (connect target s)) \<and>
      lifecycle_of (snd (connect target s)) = Disconnected) \<and>
   (target \<noteq> ''FAIL'' \<longrightarrow>
      connect target s = (Inr (), s\<lparr>port := target, connected' := True\<rparr>) \<and>
      is_connected (snd (connect target s)) \<and>
      (\<not> running s \<longrightarrow> lifecycle_of (snd (connect target s)) = Connected)) \<and>
   (later \<noteq> ''FAIL'' \<longrightarrow>
      fst (connect later (snd (connect target s))) = Inr () \<and>
      is_connected (snd (connect later (snd (connect target s)))))"
  by (simp add: connect_def Let_def is_connected_def lifecycle_of_def)

theorem connect_error_handling_witness:
  "NativeShimmer_new =
     Some \<lparr>port = [], running = False, connected' = False, thread = NoThread,
           queue = \<lparr>cap = 4096, msk = 4095, buf = replicate 8192 0, head = 0, tail = 0\<rparr>,
           rng = 0x12345678\<rparr> \<and>
   connect ''FAIL''
       \<lparr>port = [], running = False, connected' = False, thread = NoThread,
        queue = \<lparr>cap = 4096, msk = 4095, buf = replicate 8192 0, head = 0, tail = 0\<rparr>,
        rng = 0x12345678\<rparr> =
     (Inl (RuntimeError ''Failed to connect to Shimmer device at port: FAIL''),
      \<lparr>port = ''FAIL'', running = False, connected' = False, thread = NoThread,
       queue = \<lparr>cap = 4096, msk = 4095, buf = replicate 8192 0, head = 0, tail = 0\<rparr>,
       rng = 0x12345678\<rparr>) \<and>
   connect ''COM3''
       \<lparr>port = ''FAIL'', running = False, connected' = False, thread = NoThread,
        queue = \<lparr>cap = 4096, msk = 4095, buf = replicate 8192 0, head = 0, tail = 0\<rparr>,
        rng = 0x12345678\<rparr> =
     (Inr (),
      \<lparr>port = ''COM3'', running = False, connected' = True, thread = NoThread,
       queue = \<lparr>cap = 4096, msk = 4095, buf = replicate 8192 0, head = 0, tail = 0\<rparr>,
       rng = 0x12345678\<rparr>)"
proof -
  let ?s0 = "\<lparr>port = [], running = False, connected' = False, thread = NoThread,
           queue = \<lparr>cap = 4096, msk = 4095, buf = replicate 8192 0, head = 0, tail = 0\<rparr>,
           rng = 0x12345678\<rparr>"
  have a: "''COM3'' \<noteq> ''FAIL''" by simp
  show ?thesis
    using connect_error_handling [of "''FAIL''" ?s0 "''COM3''"]
          connect_error_handling [of "''COM3''" "?s0\<lparr>port := ''FAIL''\<rparr>" "''COM3''"]
    by (simp add: NativeShimmer_new_eq)
qed

text \<open>
  C6 (start).  In the state \<open>s\<close> that any history of calls leads to (no history ends in
  \<^verbatim>\<open>std::terminate\<close> or undefined behaviour): if the stream is \<open>Running\<close>, \<open>start_streaming\<close>
  returns and changes nothing; if it is \<open>Disconnected\<close> (never connected, or the last
  \<open>connect\<close> failed) it raises the not-connected error and changes nothing; otherwise,
  in \<open>Connected\<close>, it sets the running flag, creates the loop thread and the stream is
  \<open>Running\<close>.
\<close>

theorem start_error_handling:
  "\<exists>s0 rs s. NativeShimmer_new = Some s0 \<and> exec cs s0 = Some (rs, s) \<and>
     (lifecycle_of s = Running \<longrightarrow> start_streaming s = (Inr (), s)) \<and>
     (lifecycle_of s = Disconnected \<longrightarrow>
        start_streaming s =
          (Inl (RuntimeError ''Shimmer not connected. Call connect() first.''), s)) \<and>
     (lifecycle_of s = Connected \<longrightarrow>
        start_streaming s = (Inr (), s\<lparr>running := True, thread := Started\<rparr>) \<and>
        lifecycle_of (snd (start_streaming s)) = Running)"
proof -
  from reachable_ok [of cs] obtain s0 rs s where
    r: "NativeShimmer_new = Some s0" "exec cs s0 = Some (rs, s)" "shimmer_ok s"
    by blast
  have "lifecycle_of s = Running \<longrightarrow> start_streaming s = (Inr (), s)"
    by (simp add: lifecycle_of_def start_streaming_def is_connected_def)
  moreover have "lifecycle_of s = Disconnected \<longrightarrow>
        start_streaming s =
          (Inl (RuntimeError ''Shimmer not connected. Call connect() first.''), s)"
    by (simp add: lifecycle_of_def start_streaming_def is_connected_def)
  moreover have "lifecycle_of s = Connected \<longrightarrow>
        start_streaming s = (Inr (), s\<lparr>running := True, thread := Started\<rparr>) \<and>
        lifecycle_of (snd (start_streaming s)) = Running"
    using r(3)
    by (auto simp: lifecycle_of_def start_streaming_def is_connected_def shimmer_ok_def
        joinable_def Let_def split: if_splits)
  ultimately show ?thesis
    using r(1,2) by blast
qed

theorem start_error_handling_witness:
  "\<exists>s0 rs s. NativeShimmer_new = Some s0 \<and>
     exec [StartStreaming, Connect ''COM3''] s0 = Some (rs, s) \<and>
     rs = [Raised ''Shimmer not connected. Call connect() first.'', Returned] \<and>
     lifecycle_of s = Connected \<and>
     start_streaming s = (Inr (), s\<lparr>running := True, thread := Started\<rparr>) \<and>
     lifecycle_of (snd (start_streaming s)) = Running"
proof -
  from start_error_handling [of "[StartStreaming, Connect ''COM3'']"] obtain s0 rs s where
    r: "NativeShimmer_new = Some s0" "exec [StartStreaming, Connect ''COM3''] s0 = Some (rs, s)"
       "lifecycle_of s = Connected \<longrightarrow>
          start_streaming s = (Inr (), s\<lparr>running := True, thread := Started\<rparr>) \<and>
          lifecycle_of (snd (start_streaming s)) = Running"
    by blast
  have "rs = [Raised ''Shimmer not connected. Call connect() first.'', Returned]"
    and "lifecycle_of s = Connected"
    using r(1,2)
    by (auto simp: NativeShimmer_new_eq start_streaming_def connect_def Let_def
        lifecycle_of_def is_connected_def)
  then show ?thesis
    using r by blast
qed

text \<open>
  C7 (stop, lifecycle).  In the state \<open>s\<close> that any history of calls leads to:
  \<open>stop_streaming\<close> returns without an error; it changes nothing when the running flag is
  off; when the flag is on it clears it and joins the loop thread, so that a \<open>Running\<close>
  stream is back in \<open>Connected\<close>; a second \<open>stop_streaming\<close> changes nothing more, and
  \<open>start_streaming\<close> on a \<open>Running\<close> stream changes nothing.  The one thread member is
  joinable exactly while the running flag is on, no history reaches \<^verbatim>\<open>std::terminate\<close>
  (a thread created over a live one), and \<open>start_streaming\<close> followed at once by
  \<open>stop_streaming\<close> leaves no thread behind.
\<close>

theorem stop_idempotent_lifecycle:
  "\<exists>s0 rs s. NativeShimmer_new = Some s0 \<and> exec cs s0 = Some (rs, s) \<and>
     fst (stop_streaming s) = Inr () \<and>
     (\<not> running s \<longrightarrow> snd (stop_streaming s) = s) \<and>
     (running s \<longrightarrow> snd (stop_streaming s) = s\<lparr>running := False, thread := NoThread\<rparr>) \<and>
     (lifecycle_of s = Running \<longrightarrow> lifecycle_of (snd (stop_streaming s)) = Connected) \<and>
     stop_streaming (snd (stop_streaming s)) = (Inr (), snd (stop_streaming s)) \<and>
     (lifecycle_of s = Running \<longrightarrow> start_streaming s = (Inr (), s)) \<and>
     joinable (thread s) = running s \<and>
     \<not> joinable (thread (snd (stop_streaming (snd (start_streaming s))))) \<and>
     \<not> running (snd (stop_streaming (snd (start_streaming s))))"
proof -
  from reachable_ok [of cs] obtain s0 rs s where
    r: "NativeShimmer_new = Some s0" "exec cs s0 = Some (rs, s)" "shimmer_ok s"
    by blast
  have j: "joinable (thread s) = running s"
    using r(3) by (simp add: shimmer_ok_def)
  have 1: "fst (stop_streaming s) = Inr ()"
    by (simp add: stop_streaming_def Let_def)
  have 2: "\<not> running s \<longrightarrow> snd (stop_streaming s) = s"
    using j by (simp add: stop_streaming_def Let_def)
  have 3: "running s \<longrightarrow> snd (stop_streaming s) = s\<lparr>running := False, thread := NoThread\<rparr>"
    using j by (simp add: stop_streaming_def Let_def)
  have 4: "lifecycle_of s = Running \<longrightarrow> lifecycle_of (snd (stop_streaming s)) = Connected"
    by (simp add: stop_streaming_def Let_def lifecycle_of_def is_connected_def)
  have 5: "stop_streaming (snd (stop_streaming s)) = (Inr (), snd (stop_streaming s))"
    using j by (simp add: stop_streaming_def Let_def joinable_def)
  have 6: "lifecycle_of s = Running \<longrightarrow> start_streaming s = (Inr (), s)"
    by (simp add: lifecycle_of_def start_streaming_def is_connected_def)
  have 7: "\<not> joinable (thread (snd (stop_streaming (snd (start_streaming s)))))"
    by (simp add: stop_streaming_def start_streaming_def Let_def joinable_def)
  have 8: "\<not> running (snd (stop_streaming (snd (start_streaming s))))"
    by (simp add: stop_streaming_def start_streaming_def Let_def joinable_def)
  show ?thesis
    using r(1,2) 1 2 3 4 5 6 j 7 8 by blast
qed

theorem stop_idempotent_lifecycle_witness:
  "\<exists>s0 rs s. NativeShimmer_new = Some s0 \<and>
     exec [StopStreaming, Connect ''COM3'', StartStreaming, StartStreaming, ThreadStep 3] s0
       = Some (rs, s) \<and>
     rs = [Returned, Returned, Returned, Returned, Returned] \<and>
     lifecycle_of s = Running \<and> running s \<and>
     thread s = Looping \<lparr>phase = 0, t_next = 3\<rparr> \<and>
     stop_streaming s = (Inr (), s\<lparr>running := False, thread := NoThread\<rparr>) \<and>
     lifecycle_of (snd (stop_streaming s)) = Connected \<and>
     stop_streaming (snd (stop_streaming s)) = (Inr (), snd (stop_streaming s)) \<and>
     start_streaming s = (Inr (), s)"
proof -
  let ?cs = "[StopStreaming, Connect ''COM3'', StartStreaming, StartStreaming, ThreadStep 3]"
  from stop_idempotent_lifecycle [of ?cs] obtain s0 rs s where
    r: "NativeShimmer_new = Some s0" "exec ?cs s0 = Some (rs, s)"
       "fst (stop_streaming s) = Inr ()"
       "running s \<longrightarrow> snd (stop_streaming s) = s\<lparr>running := False, thread := NoThread\<rparr>"
       "lifecycle_of s = Running \<longrightarrow> lifecycle_of (snd (stop_streaming s)) = Connected"
       "stop_streaming (snd (stop_streaming s)) = (Inr (), snd (stop_streaming s))"
       "lifecycle_of s = Running \<longrightarrow> start_streaming s = (Inr (), s)"
    by blast
  have e: "rs = [Returned, Returned, Returned, Returned, Returned]"
      "lifecycle_of s = Running" "running s" "thread s = Looping \<lparr>phase = 0, t_next = 3\<rparr>"
    using r(1,2)
    by (auto simp: NativeShimmer_new_eq start_streaming_def stop_streaming_def connect_def
        thread_step_def Let_def lifecycle_of_def is_connected_def joinable_def)
  have "stop_streaming s = (Inr (), s\<lparr>running := False, thread := NoThread\<rparr>)"
    using r(3,4) e(3) by (metis prod.collapse)
  then show ?thesis
    using r e by blast
qed

text \<open>
  C10 (lower bound on sample values).  Whatever the history of calls, clock readings and
  schedulings of the loop thread, every pair that \<open>get_latest_samples\<close> returns has a
  value of at least \<open>0.1\<close>: the loop pushes only \<^verbatim>\<open>std::max(0.1, gsr_value)\<close>, and the
  ring returns only what was pushed, never a zero of its initial storage.
\<close>

theorem sample_values_clamped:
  "\<exists>s0 rs s. NativeShimmer_new = Some s0 \<and> exec cs s0 = Some (rs, s) \<and>
     list_all (\<lambda>(t, v). 0.1 \<le> v) (samples_of rs)"
proof -
  from reachable_ok [of cs] obtain s0 rs s where
    r: "NativeShimmer_new = Some s0" "exec cs s0 = Some (rs, s)"
       "\<forall>x \<in> set (samples_of rs). 0.1 \<le> snd x"
    by blast
  have "list_all (\<lambda>(t, v). 0.1 \<le> v) (samples_of rs)"
    using r(3) by (auto simp: list_all_iff)
  then show ?thesis
    using r(1,2) by blast
qed

theorem sample_values_clamped_witness:
  "\<exists>s0 rs s. NativeShimmer_new = Some s0 \<and>
     exec [Connect ''COM3'', StartStreaming, ThreadStep 5, ThreadStep 5, GetLatestSamples,
           ThreadStep 5, GetLatestSamples] s0 = Some (rs, s) \<and>
     samples_of rs = [(5, 1307971 / 163840)] \<and>
     list_all (\<lambda>(t, v). 0.1 \<le> v) (samples_of rs)"
proof -
  let ?cs = "[Connect ''COM3'', StartStreaming, ThreadStep 5, ThreadStep 5, GetLatestSamples,
           ThreadStep 5, GetLatestSamples]"
  from sample_values_clamped [of ?cs] obtain s0 rs s where
    r: "NativeShimmer_new = Some s0" "exec ?cs s0 = Some (rs, s)"
       "list_all (\<lambda>(t, v). 0.1 \<le> v) (samples_of rs)"
    by blast
  have "samples_of rs = [(5, 1307971 / 163840)]"
    using r(1,2)
    by (auto simp: NativeShimmer_new_eq start_streaming_def connect_def
        thread_step_def loop_body_def get_latest_samples_def push_def pop_all_def
        pop_loop.simps Let_def joinable_def dt_def rate_def)
  then show ?thesis
    using r by blast
qed

section \<open>Properties of the frame loop\<close>

lemma capture_loop_append:
  "capture_loop rs cv (xs @ ys) w =
     (case capture_loop rs cv xs w of None \<Rightarrow> None | Some w' \<Rightarrow> capture_loop rs cv ys w')"
  by (induction xs arbitrary: w) (auto split: option.splits)

lemma capture_loop_failed: "capture_loop rs cv (replicate n ReadFailed) w = Some w"
  by (induction n) (simp_all add: capture_cycle_def)

text \<open>
  C8 (frame staleness).  \<open>n\<close> consecutive cycles in which \<^verbatim>\<open>cap.read\<close> fails leave the
  object as it was: after them the loop has the state, and \<open>get_latest_frame\<close> the
  result, that it had before them (the frame of the last successful acquisition), and
  the loop goes on with the cycles that follow as if the failed ones had not happened.
\<close>

theorem frame_staleness:
  "capture_loop rs cv (before @ replicate n ReadFailed) w = capture_loop rs cv before w \<and>
   map_option get_latest_frame (capture_loop rs cv (before @ replicate n ReadFailed) w)
     = map_option get_latest_frame (capture_loop rs cv before w) \<and>
   capture_loop rs cv (before @ replicate n ReadFailed @ after) w
     = capture_loop rs cv (before @ after) w"
  by (simp add: capture_loop_append capture_loop_failed split: option.splits)

theorem frame_staleness_witness:
  "map_option get_latest_frame
     (capture_loop (\<lambda>m w h. m) (\<lambda>m. m)
        ([ReadOk \<lparr>cols = 640, rows = 480, channels = 3, data = replicate 921600 7\<rparr>]
          @ replicate 5 ReadFailed)
        (NativeWebcam_new 0))
   = Some ([480, 640, 3], [1920, 3, 1], replicate 921600 7)"
proof -
  have "capture_loop (\<lambda>m w h. m) (\<lambda>m. m)
          [ReadOk \<lparr>cols = 640, rows = 480, channels = 3, data = replicate 921600 7\<rparr>]
          (NativeWebcam_new 0)
        = Some ((NativeWebcam_new 0)\<lparr>buffer := replicate 921600 7\<rparr>)"
    by (simp add: capture_cycle_def mat_empty_def NativeWebcam_new_def memcpy_def)
  then show ?thesis
    using frame_staleness
      [of "\<lambda>m w h. m" "\<lambda>m. m"
          "[ReadOk \<lparr>cols = 640, rows = 480, channels = 3, data = replicate 921600 7\<rparr>]"
          5 "NativeWebcam_new 0"]
    by (simp add: get_latest_frame_def NativeWebcam_new_def)
qed

end
